theory Spec2Isabelle
  imports Complex_Main "HOL-Library.Sublist"
begin

section \<open>Strings and characters\<close>

text \<open>
  A JavaScript string is a sequence of UTF-16 code units. The model covers the strings
  whose code units are below 256: a \<^typ>\<open>char\<close> is one such code unit
  (ISO 8859-1), a \<^typ>\<open>string\<close> a JavaScript string.
  Numbers are IEEE doubles in the source; every number the parser and the rewriter
  handle is a non-negative integer read from decimal digits, modelled as \<^typ>\<open>nat\<close>
  (exact below \<open>2^53\<close>); pointer coordinates are modelled as real numbers.
\<close>

definition isWhiteSpace :: "char \<Rightarrow> bool" where
  \<comment> \<open>the class \<open>\s\<close>, and the characters \<open>trim()\<close> strips: TAB, LF, VT, FF, CR, SPACE, NBSP\<close>
  "isWhiteSpace c = (c \<in> set [CHR 0x09, CHR 0x0A, CHR 0x0B, CHR 0x0C, CHR 0x0D, CHR 0x20, CHR 0xA0])"

definition isDigit :: "char \<Rightarrow> bool" where
  \<comment> \<open>the class \<open>\d\<close>\<close>
  "isDigit c = (c \<in> set ''0123456789'')"

definition anyChar :: "char \<Rightarrow> bool" where
  \<comment> \<open>the class \<open>.\<close>: everything but a line terminator\<close>
  "anyChar c = (c \<noteq> CHR 0x0A \<and> c \<noteq> CHR 0x0D)"

definition isQuote :: "char \<Rightarrow> bool" where
  \<comment> \<open>the class \<open>["']\<close>\<close>
  "isQuote c = (c = CHR 0x22 \<or> c = CHR 0x27)"

definition notQuote :: "char \<Rightarrow> bool" where
  \<comment> \<open>the class \<open>[^"']\<close>\<close>
  "notQuote c = (c \<noteq> CHR 0x22 \<and> c \<noteq> CHR 0x27)"

definition notGt :: "char \<Rightarrow> bool" where
  \<comment> \<open>the class \<open>[^>]\<close>\<close>
  "notGt c = (c \<noteq> CHR ''>'')"

definition notGtWs :: "char \<Rightarrow> bool" where
  \<comment> \<open>the class \<open>[^>\s]\<close>\<close>
  "notGtWs c = (c \<noteq> CHR ''>'' \<and> \<not> isWhiteSpace c)"

definition notParen :: "char \<Rightarrow> bool" where
  \<comment> \<open>the class \<open>[^)]\<close>\<close>
  "notParen c = (c \<noteq> CHR '')'')"

definition notPipeBracket :: "char \<Rightarrow> bool" where
  \<comment> \<open>the class \<open>[^|\]]\<close>\<close>
  "notPipeBracket c = (c \<noteq> CHR ''|'' \<and> c \<noteq> CHR '']'')"

definition canonicalize :: "char \<Rightarrow> nat" where
  \<comment> \<open>the code unit a character is compared by under the flag \<open>i\<close>: that of its
      upper-case form (ECMAScript's Canonicalize)\<close>
  "canonicalize c =
     (let n = (of_char c :: nat)
      in if (97 \<le> n \<and> n \<le> 122) \<or> (224 \<le> n \<and> n \<le> 254 \<and> n \<noteq> 247) then n - 32
         else if n = 181 then 924
         else if n = 255 then 376
         else n)"

definition trim :: "string \<Rightarrow> string" where
  "trim s = rev (dropWhile isWhiteSpace (rev (dropWhile isWhiteSpace s)))"

fun splitOn :: "char \<Rightarrow> string \<Rightarrow> string list" where
  "splitOn d [] = [[]]"
| "splitOn d (x # xs) =
     (if x = d then [] # splitOn d xs
      else (case splitOn d xs of [] \<Rightarrow> [[x]] | h # t \<Rightarrow> (x # h) # t))"

definition digitValue :: "char \<Rightarrow> nat" where
  "digitValue c = of_char c - 48"

definition safeInteger :: "nat \<Rightarrow> bool" where
  \<comment> \<open>the integers a double holds exactly (\<open>Number.isSafeInteger\<close>): on these the model of
      reading and printing a number is the source's\<close>
  "safeInteger n = (n < 2 ^ 53)"

definition parseInt :: "string \<Rightarrow> nat" where
  \<comment> \<open>\<open>parseInt(s, 10)\<close> where the source calls it: on a capture of \<open>\d+\<close>. It reads the
      leading decimal digits. The source returns the nearest double, which is this value
      when it is a safe integer.\<close>
  "parseInt s = foldl (\<lambda>n c. 10 * n + digitValue c) 0 (takeWhile isDigit s)"

definition digitChar :: "nat \<Rightarrow> char" where
  "digitChar d = ''0123456789'' ! d"

text \<open>
  \<open>showNat n\<close> is the decimal digits of \<open>n\<close>: what a template literal prints for a safe
  integer. The source prints a double of \<open>10^21\<close> or more in exponent form, so a statement
  about a rendered number is made for safe integers only.
\<close>

fun showNat :: "nat \<Rightarrow> string" where
  "showNat n = (if n < 10 then [digitChar n] else showNat (n div 10) @ [digitChar (n mod 10)])"

declare showNat.simps [simp del]

definition showInt :: "int \<Rightarrow> string" where
  \<comment> \<open>an integer inside a template literal\<close>
  "showInt z = (if z < 0 then CHR ''-'' # showNat (nat (- z)) else showNat (nat z))"

section \<open>Regular expressions\<close>

text \<open>
  The regular expressions of the source, as syntax trees, and the backtracking matcher
  of ECMAScript on them. Every quantifier \<open>*\<close>, \<open>*?\<close> and \<open>+\<close> of the source stands
  on a single character class, and \<open>?\<close> is always greedy, so these are the only
  quantifiers of the model. A matcher state is the position in the input, the rest of
  the input from there, and the captures so far.

  \<open>ms r st\<close> lists the states in which a match of \<open>r\<close> from \<open>st\<close> can end, in the
  order in which backtracking tries them: the first state of the list that lets the rest
  of the pattern succeed is the one ECMAScript takes.
\<close>

type_synonym captures = "nat \<Rightarrow> string option"

type_synonym mstate = "nat \<times> string \<times> captures"

datatype regex =
    Cls "char \<Rightarrow> bool"
  | Eps
  | Bol
  | Eol
  | Seq regex regex
  | Alt regex regex
  | Opt regex
  | Star "char \<Rightarrow> bool"
  | LazyStar "char \<Rightarrow> bool"
  | Plus "char \<Rightarrow> bool"
  | Cap nat regex

fun star_greedy :: "(char \<Rightarrow> bool) \<Rightarrow> nat \<Rightarrow> string \<Rightarrow> captures \<Rightarrow> mstate list" where
  "star_greedy P i [] c = [(i, [], c)]"
| "star_greedy P i (x # xs) c =
     (if P x then star_greedy P (Suc i) xs c else []) @ [(i, x # xs, c)]"

fun star_lazy :: "(char \<Rightarrow> bool) \<Rightarrow> nat \<Rightarrow> string \<Rightarrow> captures \<Rightarrow> mstate list" where
  "star_lazy P i [] c = [(i, [], c)]"
| "star_lazy P i (x # xs) c =
     (i, x # xs, c) # (if P x then star_lazy P (Suc i) xs c else [])"

fun ms :: "regex \<Rightarrow> mstate \<Rightarrow> mstate list" where
  "ms (Cls P) (i, s, c) =
     (case s of [] \<Rightarrow> [] | x # xs \<Rightarrow> if P x then [(Suc i, xs, c)] else [])"
| "ms Eps st = [st]"
| "ms Bol (i, s, c) = (if i = 0 then [(i, s, c)] else [])"
| "ms Eol (i, s, c) = (if s = [] then [(i, s, c)] else [])"
| "ms (Seq a b) st = concat (map (ms b) (ms a st))"
| "ms (Alt a b) st = ms a st @ ms b st"
| "ms (Opt a) st = filter (\<lambda>st'. fst st' \<noteq> fst st) (ms a st) @ [st]"
| "ms (Star P) (i, s, c) = star_greedy P i s c"
| "ms (LazyStar P) (i, s, c) = star_lazy P i s c"
| "ms (Plus P) (i, s, c) =
     (case s of [] \<Rightarrow> [] | x # xs \<Rightarrow> if P x then star_greedy P (Suc i) xs c else [])"
| "ms (Cap n a) (i, s, c) =
     map (\<lambda>(j, t, c'). (j, t, c'(n \<mapsto> take (j - i) s))) (ms a (i, s, c))"

text \<open>
  In \<open>Opt\<close>, an iteration that consumes nothing is rejected, as ECMAScript's
  RepeatMatcher does for a quantifier with minimum 0; skipping the group keeps the
  captures it had.
\<close>

record match_result =
  index :: nat
  matched :: string
  groups :: captures

fun re_search :: "regex \<Rightarrow> nat \<Rightarrow> string \<Rightarrow> match_result option" where
  "re_search r i [] =
     (case ms r (i, [], Map.empty) of
        [] \<Rightarrow> None
      | (j, t, c) # _ \<Rightarrow> Some \<lparr>index = i, matched = [], groups = c\<rparr>)"
| "re_search r i (x # xs) =
     (case ms r (i, x # xs, Map.empty) of
        [] \<Rightarrow> re_search r (Suc i) xs
      | (j, t, c) # _ \<Rightarrow> Some \<lparr>index = i, matched = take (j - i) (x # xs), groups = c\<rparr>)"

definition re_match :: "regex \<Rightarrow> string \<Rightarrow> match_result option" where
  \<comment> \<open>\<open>s.match(r)\<close> for a pattern without the flag \<open>g\<close>: the leftmost start at which the
      pattern matches, with the match backtracking finds first there\<close>
  "re_match r s = re_search r 0 s"

fun seqs :: "regex list \<Rightarrow> regex" where
  "seqs [] = Eps"
| "seqs [r] = r"
| "seqs (r # rs) = Seq r (seqs rs)"

definition chr :: "char \<Rightarrow> regex" where
  "chr c = Cls (\<lambda>x. x = c)"

definition chr_i :: "char \<Rightarrow> regex" where
  \<comment> \<open>a pattern character under the flag \<open>i\<close>\<close>
  "chr_i c = Cls (\<lambda>x. canonicalize x = canonicalize c)"

definition lit :: "string \<Rightarrow> regex" where
  "lit s = seqs (map chr s)"

definition lit_i :: "string \<Rightarrow> regex" where
  "lit_i s = seqs (map chr_i s)"

definition markdownRegex :: regex where
  \<comment> \<open>\<open>/!\[(.*?)?(?:\|(\d+(?:x\d+)?))?\]\(([^)]+)\)/\<close>\<close>
  "markdownRegex = seqs
     [lit ''!['',
      Opt (Cap 1 (LazyStar anyChar)),
      Opt (Seq (chr CHR ''|'')
               (Cap 2 (Seq (Plus isDigit) (Opt (Seq (chr CHR ''x'') (Plus isDigit)))))),
      lit ''](''  ,
      Cap 3 (Plus notParen),
      chr CHR '')'']"

definition wikilinkRegex :: regex where
  \<comment> \<open>\<open>/!\[\[([^|\]]+)(?:\|([^|\]]*))?\]\]/\<close>\<close>
  "wikilinkRegex = seqs
     [lit ''![['',
      Cap 1 (Plus notPipeBracket),
      Opt (Seq (chr CHR ''|'') (Cap 2 (Star notPipeBracket))),
      lit '']]'']"

definition dimRegex :: regex where
  \<comment> \<open>\<open>/^(\d+)(?:x(\d+))?$/\<close>\<close>
  "dimRegex = seqs
     [Bol, Cap 1 (Plus isDigit), Opt (Seq (chr CHR ''x'') (Cap 2 (Plus isDigit))), Eol]"

definition htmlImgRegex :: regex where
  \<comment> \<open>\<open>/(<img\s+(?:[^>]*?\s+)?src=(?:["']([^"']+)["']|([^>\s]+))\<close>
      \<open>(?:\s+[^>]*?\s*alt=(?:["']([^"']*)["']|([^>\s]*)))?\<close>
      \<open>(?:\s+[^>]*?\s*style=(?:["']([^"']+)["']|([^>\s]+)))?[^>]*?>)/i\<close>\<close>
  "htmlImgRegex = Cap 1 (seqs
     [lit_i ''<img'',
      Plus isWhiteSpace,
      Opt (Seq (LazyStar notGt) (Plus isWhiteSpace)),
      lit_i ''src='',
      Alt (seqs [Cls isQuote, Cap 2 (Plus notQuote), Cls isQuote]) (Cap 3 (Plus notGtWs)),
      Opt (seqs [Plus isWhiteSpace, LazyStar notGt, Star isWhiteSpace, lit_i ''alt='',
                 Alt (seqs [Cls isQuote, Cap 4 (Star notQuote), Cls isQuote])
                     (Cap 5 (Star notGtWs))]),
      Opt (seqs [Plus isWhiteSpace, LazyStar notGt, Star isWhiteSpace, lit_i ''style='',
                 Alt (seqs [Cls isQuote, Cap 6 (Plus notQuote), Cls isQuote])
                     (Cap 7 (Plus notGtWs))]),
      LazyStar notGt,
      chr CHR ''>''])"

definition widthRegex :: regex where
  \<comment> \<open>\<open>/width:\s*(\d+)px/i\<close>\<close>
  "widthRegex = seqs [lit_i ''width:'', Star isWhiteSpace, Cap 1 (Plus isDigit), lit_i ''px'']"

definition heightRegex :: regex where
  \<comment> \<open>\<open>/height:\s*(\d+)px/i\<close>\<close>
  "heightRegex = seqs [lit_i ''height:'', Star isWhiteSpace, Cap 1 (Plus isDigit), lit_i ''px'']"

definition zoomRegex :: regex where
  \<comment> \<open>\<open>/zoom:\s*(\d+)%?/i\<close>\<close>
  "zoomRegex = seqs [lit_i ''zoom:'', Star isWhiteSpace, Cap 1 (Plus isDigit), Opt (chr CHR ''%'')]"

definition digitsRegex :: regex where
  \<comment> \<open>\<open>/(\d+)/\<close>\<close>
  "digitsRegex = Cap 1 (Plus isDigit)"

definition imgTagToReplaceRegex :: "string \<Rightarrow> regex" where
  \<comment> \<open>\<open>new RegExp(`<img\s+src=(?:["']${escapeRegExp(path)}["']|${escapeRegExp(path)})[^>]*>`, "i")\<close>:
      \<open>escapeRegExp\<close> puts a backslash before every metacharacter of the path, so the
      pattern reads the path as the literal sequence of its characters\<close>
  "imgTagToReplaceRegex p = seqs
     [lit_i ''<img'',
      Plus isWhiteSpace,
      lit_i ''src='',
      Alt (seqs [Cls isQuote, lit_i p, Cls isQuote]) (lit_i p),
      Star notGt,
      chr CHR ''>'']"

section \<open>The parser\<close>

text \<open>
  A parse result is \<open>Some\<close> record, \<open>null\<close> is \<open>None\<close>; an optional field is an
  option. \<open>match[3].trim()\<close> in \<open>parseMarkdown\<close> and \<open>match[1].trim()\<close> in
  \<open>parseWikilink\<close> would raise on an unset capture; every match of the two patterns
  sets these captures (\<open>markdownRegex_cap3\<close>, \<open>wikilinkRegex_cap1\<close> below), so the
  branch \<open>None\<close> on them is never taken.
\<close>

record ParsedImageInfo =
  path :: string
  altText :: "string option"
  specifiedWidth :: "nat option"
  specifiedHeight :: "nat option"
  originalMatch :: string
  startIndexInLine :: nat
  isHtml :: bool
  currentZoomPercent :: "nat option"

definition truthy :: "string option \<Rightarrow> string option" where
  \<comment> \<open>\<open>v || undefined\<close> on a capture: an unset or empty capture is \<open>undefined\<close>\<close>
  "truthy v = (case v of None \<Rightarrow> None | Some s \<Rightarrow> if s = [] then None else Some s)"

definition orElse :: "string option \<Rightarrow> string option \<Rightarrow> string option" where
  \<comment> \<open>\<open>a || b\<close> on captures\<close>
  "orElse a b = (case truthy a of Some s \<Rightarrow> Some s | None \<Rightarrow> b)"

definition capturedInt :: "regex \<Rightarrow> string \<Rightarrow> nat option" where
  \<comment> \<open>\<open>const m = s.match(r); if (m && m[1]) v = parseInt(m[1], 10);\<close>\<close>
  "capturedInt r s =
     (case re_match r s of
        None \<Rightarrow> None
      | Some m \<Rightarrow> (case truthy (groups m 1) of None \<Rightarrow> None | Some d \<Rightarrow> Some (parseInt d)))"

definition parseMarkdown :: "string \<Rightarrow> ParsedImageInfo option" where
  "parseMarkdown lineText =
     (case re_match markdownRegex lineText of
        None \<Rightarrow> None
      | Some m \<Rightarrow>
          (case groups m 3 of
             None \<Rightarrow> None
           | Some p \<Rightarrow>
               let dims = (case truthy (groups m 2) of None \<Rightarrow> [] | Some d \<Rightarrow> splitOn CHR ''x'' d)
               in Some \<lparr>path = trim p,
                        altText = truthy (groups m 1),
                        specifiedWidth =
                          (case dims of [] \<Rightarrow> None
                           | w # _ \<Rightarrow> if w \<noteq> [] then Some (parseInt w) else None),
                        specifiedHeight =
                          (case dims of w # h # _ \<Rightarrow> if h \<noteq> [] then Some (parseInt h) else None
                           | _ \<Rightarrow> None),
                        originalMatch = matched m,
                        startIndexInLine = index m,
                        isHtml = False,
                        currentZoomPercent = None\<rparr>))"

definition parseWikilink :: "string \<Rightarrow> ParsedImageInfo option" where
  "parseWikilink lineText =
     (case re_match wikilinkRegex lineText of
        None \<Rightarrow> None
      | Some m \<Rightarrow>
          (case groups m 1 of
             None \<Rightarrow> None
           | Some p \<Rightarrow>
               let altOrDimensions = groups m 2;
                   dimMatch = (case truthy altOrDimensions of
                                 None \<Rightarrow> None
                               | Some s \<Rightarrow> re_match dimRegex s)
               in Some \<lparr>path = trim p,
                        altText = (case dimMatch of None \<Rightarrow> altOrDimensions | Some _ \<Rightarrow> None),
                        specifiedWidth =
                          (case dimMatch of None \<Rightarrow> None
                           | Some d \<Rightarrow> map_option parseInt (truthy (groups d 1))),
                        specifiedHeight =
                          (case dimMatch of None \<Rightarrow> None
                           | Some d \<Rightarrow> map_option parseInt (truthy (groups d 2))),
                        originalMatch = matched m,
                        startIndexInLine = index m,
                        isHtml = False,
                        currentZoomPercent = None\<rparr>))"

definition parseHtml :: "string \<Rightarrow> ParsedImageInfo option" where
  "parseHtml lineText =
     (case re_match htmlImgRegex lineText of
        None \<Rightarrow> None
      | Some m \<Rightarrow>
          let styleString = orElse (groups m 6) (truthy (groups m 7))
          in (case orElse (groups m 2) (groups m 3) of
                None \<Rightarrow> None
              | Some p \<Rightarrow>
                  if p = [] then None
                  else Some \<lparr>path = trim p,
                             altText = map_option trim (orElse (groups m 4) (truthy (groups m 5))),
                             specifiedWidth =
                               (case styleString of None \<Rightarrow> None | Some s \<Rightarrow> capturedInt widthRegex s),
                             specifiedHeight =
                               (case styleString of None \<Rightarrow> None | Some s \<Rightarrow> capturedInt heightRegex s),
                             originalMatch = matched m,
                             startIndexInLine = index m,
                             isHtml = True,
                             currentZoomPercent =
                               (case styleString of None \<Rightarrow> None | Some s \<Rightarrow> capturedInt zoomRegex s)\<rparr>))"

definition parseImageSyntaxFromLine :: "string \<Rightarrow> ParsedImageInfo option" where
  "parseImageSyntaxFromLine lineText =
     (case parseMarkdown lineText of
        Some r \<Rightarrow> Some r
      | None \<Rightarrow>
          (case parseWikilink lineText of
             Some r \<Rightarrow> Some r
           | None \<Rightarrow> parseHtml lineText))"

section \<open>The rewriter\<close>

definition replaceAll :: "char \<Rightarrow> string \<Rightarrow> string \<Rightarrow> string" where
  \<comment> \<open>\<open>s.replace(/c/g, r)\<close> for a single character \<open>c\<close>\<close>
  "replaceAll c r s = concat (map (\<lambda>x. if x = c then r else [x]) s)"

definition escapeHtml :: "string \<Rightarrow> string" where
  "escapeHtml unsafe =
     replaceAll (CHR 0x27) ''&#039;''
       (replaceAll (CHR 0x22) ''&quot;''
         (replaceAll CHR ''>'' ''&gt;''
           (replaceAll CHR ''<'' ''&lt;''
             (replaceAll CHR ''&'' ''&amp;'' unsafe))))"

definition safeAltText :: "string option \<Rightarrow> string" where
  \<comment> \<open>\<open>altText ? escapeHtml(altText) : ""\<close>\<close>
  "safeAltText a = (case truthy a of None \<Rightarrow> [] | Some t \<Rightarrow> escapeHtml t)"

definition styleString :: "nat option \<Rightarrow> nat option \<Rightarrow> int \<Rightarrow> string" where
  \<comment> \<open>the style text before \<open>trim()\<close>; a width or height that is \<open>undefined\<close> or 0 is
      left out\<close>
  "styleString w h z =
     (case w of None \<Rightarrow> [] | Some n \<Rightarrow> if n = 0 then [] else ''width: '' @ showNat n @ ''px; '')
     @ (case h of None \<Rightarrow> [] | Some n \<Rightarrow> if n = 0 then [] else ''height: '' @ showNat n @ ''px; '')
     @ ''zoom: '' @ showInt z @ ''%;''"

definition imgTag :: "string \<Rightarrow> string option \<Rightarrow> nat option \<Rightarrow> nat option \<Rightarrow> int \<Rightarrow> string" where
  \<comment> \<open>the template literal of \<open>startResize\<close> and of \<open>handleDocumentMouseUp\<close>\<close>
  \<open>imgTag p a w h z =
     ''<img src="'' @ p @ ''" alt="'' @ safeAltText a @ ''" style="''
       @ trim (styleString w h z) @ ''">''\<close>

section \<open>The text engine\<close>

text \<open>
  The editor is an external collaborator. Of it the controller uses the document text,
  \<open>doc.lineAt(pos)\<close> and \<open>dispatch\<close> of a transaction with one change
  \<open>{from, to, insert}\<close>. The document is modelled as one string whose lines are
  separated by LF; both operations raise \<open>RangeError\<close> on a position outside the
  document, as CodeMirror does. The view keeps the list of the changes it was given,
  oldest first. The selection a transaction carries is not modelled: the editor also
  raises \<open>RangeError\<close> when the selection lies outside the changed document, which only a
  change that shortens the document can cause.
\<close>

datatype error = RangeError

record ChangeSpec =
  changeFrom :: nat
  changeTo :: nat
  changeInsert :: string
  userEvent :: string

record EditorView =
  doc :: string
  dispatched :: "ChangeSpec list"

record Line =
  line_from :: nat
  line_to :: nat
  line_text :: string

definition notLF :: "char \<Rightarrow> bool" where
  "notLF c = (c \<noteq> CHR 0x0A)"

definition lineAt :: "string \<Rightarrow> nat \<Rightarrow> error + Line" where
  "lineAt d p =
     (if length d < p then Inl RangeError
      else let start = p - length (takeWhile notLF (rev (take p d)));
               t = takeWhile notLF (drop start d)
           in Inr \<lparr>line_from = start, line_to = start + length t, line_text = t\<rparr>)"

definition dispatch :: "EditorView \<Rightarrow> ChangeSpec \<Rightarrow> error + EditorView" where
  "dispatch view ch =
     (if changeFrom ch \<le> changeTo ch \<and> changeTo ch \<le> length (doc view)
      then Inr \<lparr>doc = take (changeFrom ch) (doc view) @ changeInsert ch @ drop (changeTo ch) (doc view),
                dispatched = dispatched view @ [ch]\<rparr>
      else Inl RangeError)"

section \<open>The resize controller\<close>

text \<open>
  The fields of \<open>ImageResizeController\<close>. A record field is a constant of the theory, so
  the controller's \<open>currentZoomPercent\<close> is named \<open>dragZoomPercent\<close> and the fields
  \<open>path\<close> and \<open>altText\<close> of \<open>draggedImageInfo\<close> are \<open>dragPath\<close> and
  \<open>dragAltText\<close>. \<open>listening\<close> tells whether the two listeners on the document are
  attached. An image element is described by what the controller reads and writes of it,
  a mouse event by its coordinates; \<open>preventDefault\<close> and \<open>stopPropagation\<close> are
  left out. A handler that can raise returns \<open>Inl\<close> of the error, otherwise \<open>Inr\<close> of
  the controller and the view after it.
\<close>

record LineDetails =
  pos :: nat
  lineText :: string
  lineFrom :: nat
  lineTo :: nat

record DraggedImageInfo =
  dragPath :: string
  dragAltText :: "string option"
  sourceWidth :: "nat option"
  sourceHeight :: "nat option"

record ImgElement =
  offsetWidth :: nat
  rectLeft :: real
  rectTop :: real
  rectWidth :: real
  rectHeight :: real
  styleZoom :: string
  styleCursor :: string

record MouseEvent =
  clientX :: real
  clientY :: real

record ImageResizeController =
  isDragging :: bool
  initialImageWidth :: nat
  initialImageHeight :: nat
  dragZoomPercent :: int
  lineInfoAtDragStart :: "LineDetails option"
  draggedImageInfo :: "DraggedImageInfo option"
  imageCenterX :: real
  imageCenterY :: real
  initialDistanceToCenter :: real
  activeImgElement :: "ImgElement option"
  listening :: bool

definition newController :: ImageResizeController where
  "newController =
     \<lparr>isDragging = False, initialImageWidth = 0, initialImageHeight = 0, dragZoomPercent = 100,
      lineInfoAtDragStart = None, draggedImageInfo = None, imageCenterX = 0, imageCenterY = 0,
      initialDistanceToCenter = 0, activeImgElement = None, listening = False\<rparr>"

definition distanceTo :: "real \<Rightarrow> real \<Rightarrow> MouseEvent \<Rightarrow> real" where
  "distanceTo cx cy event =
     sqrt ((clientX event - cx) * (clientX event - cx) + (clientY event - cy) * (clientY event - cy))"

definition resetState :: "ImageResizeController \<Rightarrow> ImageResizeController" where
  "resetState ctrl =
     ctrl\<lparr>isDragging := False, listening := False, lineInfoAtDragStart := None,
          draggedImageInfo := None, activeImgElement := None\<rparr>"

definition startResize ::
  "ImageResizeController \<Rightarrow> EditorView \<Rightarrow> MouseEvent \<Rightarrow> ImgElement \<Rightarrow> LineDetails \<Rightarrow> ParsedImageInfo
     \<Rightarrow> error + (ImageResizeController \<times> EditorView)" where
  "startResize ctrl view event imgElement lineInfo parsedInfo =
     (let info = \<lparr>dragPath = path parsedInfo, dragAltText = altText parsedInfo,
                   sourceWidth = specifiedWidth parsedInfo, sourceHeight = specifiedHeight parsedInfo\<rparr>;
          w0 = (case specifiedWidth parsedInfo of
                  None \<Rightarrow> offsetWidth imgElement
                | Some n \<Rightarrow> if n = 0 then offsetWidth imgElement else n);
          cx = rectLeft imgElement + rectWidth imgElement / 2;
          cy = rectTop imgElement + rectHeight imgElement / 2;
          ctrl1 = ctrl\<lparr>activeImgElement := Some imgElement, lineInfoAtDragStart := Some lineInfo,
                       draggedImageInfo := Some info,
                       initialImageWidth := (if w0 = 0 then 200 else w0),
                       imageCenterX := cx, imageCenterY := cy,
                       initialDistanceToCenter := distanceTo cx cy event\<rparr>
      in if isHtml parsedInfo
         then Inr (ctrl1\<lparr>dragZoomPercent :=
                             (case currentZoomPercent parsedInfo of Some z \<Rightarrow> int z | None \<Rightarrow> 100),
                          isDragging := True, listening := True\<rparr>, view)
         else
           (let newImgTag = imgTag (dragPath info) (dragAltText info) (sourceWidth info) (sourceHeight info) 100;
                from = lineFrom lineInfo + startIndexInLine parsedInfo;
                to = from + length (originalMatch parsedInfo)
            in case dispatch view \<lparr>changeFrom = from, changeTo = to, changeInsert = newImgTag,
                                    userEvent = ''image.resize.convert''\<rparr> of
                 Inl e \<Rightarrow> Inl e
               | Inr view' \<Rightarrow>
                   Inr (ctrl1\<lparr>dragZoomPercent := 100, isDragging := True, listening := True\<rparr>, view')))"

definition zoomForDistance :: "int \<Rightarrow> real \<Rightarrow> real \<Rightarrow> int" where
  \<comment> \<open>\<open>Math.max(10, Math.min(Math.round(zoom + (current - initial) * 0.2), 500))\<close>\<close>
  "zoomForDistance zoom initialDistance currentDistance =
     max 10 (min (round (real_of_int zoom + (currentDistance - initialDistance) * 0.2)) 500)"

definition handleDocumentMouseMove :: "ImageResizeController \<Rightarrow> MouseEvent \<Rightarrow> ImageResizeController" where
  "handleDocumentMouseMove ctrl event =
     (case (activeImgElement ctrl, lineInfoAtDragStart ctrl, draggedImageInfo ctrl) of
        (Some img, Some lineInfo, Some info) \<Rightarrow>
          if \<not> isDragging ctrl \<or> dragPath info = [] then resetState ctrl
          else
            let currentDistanceToCenter = distanceTo (imageCenterX ctrl) (imageCenterY ctrl) event;
                newZoom = zoomForDistance (dragZoomPercent ctrl) (initialDistanceToCenter ctrl)
                            currentDistanceToCenter
            in ctrl\<lparr>activeImgElement := Some (img\<lparr>styleZoom := showInt newZoom @ ''%''\<rparr>)\<rparr>
      | _ \<Rightarrow> resetState ctrl)"

definition handleDocumentMouseUp ::
  "ImageResizeController \<Rightarrow> EditorView \<Rightarrow> error + (ImageResizeController \<times> EditorView)" where
  "handleDocumentMouseUp ctrl view =
     (case (activeImgElement ctrl, lineInfoAtDragStart ctrl, draggedImageInfo ctrl) of
        (Some img, Some lineInfo, Some info) \<Rightarrow>
          if \<not> isDragging ctrl then Inr (resetState ctrl, view)
          else
            let finalZoomPercent =
                  (case capturedInt digitsRegex (styleZoom img) of
                     Some z \<Rightarrow> int z
                   | None \<Rightarrow> dragZoomPercent ctrl);
                newImgTagFinal = imgTag (dragPath info) (dragAltText info) (sourceWidth info)
                                   (sourceHeight info) (max 10 (min finalZoomPercent 500))
            in (case lineAt (doc view) (lineFrom lineInfo) of
                  Inl e \<Rightarrow> Inl e
                | Inr line \<Rightarrow>
                   (case re_match (imgTagToReplaceRegex (dragPath info)) (line_text line) of
                      Some matchForUpdate \<Rightarrow>
                        (let fromPos = lineFrom lineInfo + index matchForUpdate;
                             toPos = fromPos + length (matched matchForUpdate)
                         in case dispatch view \<lparr>changeFrom = fromPos, changeTo = toPos,
                                                 changeInsert = newImgTagFinal,
                                                 userEvent = ''image.resize.update''\<rparr> of
                              Inl e \<Rightarrow> Inl e
                            | Inr view' \<Rightarrow> Inr (resetState ctrl, view'))
                    | None \<Rightarrow>
                        (case parseImageSyntaxFromLine (lineText lineInfo) of
                           None \<Rightarrow> Inr (resetState ctrl, view)
                         | Some originalSyntaxInfo \<Rightarrow>
                             if path originalSyntaxInfo = dragPath info
                             then
                               (let fromPos = lineFrom lineInfo + startIndexInLine originalSyntaxInfo;
                                    toPos = fromPos + length (originalMatch originalSyntaxInfo)
                                in case dispatch view \<lparr>changeFrom = fromPos, changeTo = toPos,
                                                        changeInsert = newImgTagFinal,
                                                        userEvent = ''image.resize.update''\<rparr> of
                                     Inl e \<Rightarrow> Inl e
                                   | Inr view' \<Rightarrow> Inr (resetState ctrl, view'))
                             else Inr (resetState ctrl, view))))
      | _ \<Rightarrow> Inr (resetState ctrl, view))"


text \<open>
  \<open>handleImageSpecificMouseDown\<close> of the hover controller arms a drag: a press on an image
  whose cursor is one of the resize cursors. \<open>posAtDOM\<close> is the document position the
  editor gives for the image element, \<open>None\<close> when it gives none.
\<close>

definition getLineInfoFromElement :: "EditorView \<Rightarrow> nat option \<Rightarrow> LineDetails option" where
  "getLineInfoFromElement view posAtDOM =
     (case posAtDOM of
        None \<Rightarrow> None
      | Some p \<Rightarrow>
          (case lineAt (doc view) p of
             Inl e \<Rightarrow> None
           | Inr line \<Rightarrow>
               Some \<lparr>pos = p, lineText = line_text line, lineFrom = line_from line,
                     lineTo = line_to line\<rparr>))"

definition handleImageSpecificMouseDown ::
  "ImageResizeController \<Rightarrow> EditorView \<Rightarrow> MouseEvent \<Rightarrow> ImgElement \<Rightarrow> nat option
     \<Rightarrow> error + (ImageResizeController \<times> EditorView)" where
  "handleImageSpecificMouseDown ctrl view event imgElement posAtDOM =
     (if sublist ''-resize'' (styleCursor imgElement)
      then (case getLineInfoFromElement view posAtDOM of
              None \<Rightarrow> Inr (ctrl, view)
            | Some lineInfo \<Rightarrow>
                (case parseImageSyntaxFromLine (lineText lineInfo) of
                   None \<Rightarrow> Inr (ctrl, view)
                 | Some parsedInfo \<Rightarrow> startResize ctrl view event imgElement lineInfo parsedInfo))
      else Inr (ctrl, view))"

section \<open>Auxiliary definitions\<close>

text \<open>\<open>must_cap n r\<close>: every match of \<open>r\<close> sets the capture \<open>n\<close>.\<close>

fun must_cap :: "nat \<Rightarrow> regex \<Rightarrow> bool" where
  "must_cap n (Cap m a) = (n = m \<or> must_cap n a)"
| "must_cap n (Seq a b) = (must_cap n a \<or> must_cap n b)"
| "must_cap n (Alt a b) = (must_cap n a \<and> must_cap n b)"
| "must_cap n r = False"

text \<open>\<open>leads r st x\<close>: the first way to match \<open>r\<close> from \<open>st\<close> that backtracking tries ends
  in \<open>x\<close>.\<close>

definition leads :: "regex \<Rightarrow> mstate \<Rightarrow> mstate \<Rightarrow> bool" where
  "leads r st x = (\<exists>tl. ms r st = x # tl)"

text \<open>
  The spec's words for the suffix of a Wikilink: it is a dimension suffix when it matches
  \<open>^<int>(x<int>)?$\<close> exactly, an \<open><int>\<close> being a non-empty run of decimal digits.
\<close>

definition digits :: "string \<Rightarrow> bool" where
  "digits w = (w \<noteq> [] \<and> list_all isDigit w)"

definition isDimensionSuffix :: "string \<Rightarrow> bool" where
  "isDimensionSuffix s =
     (\<exists>w. digits w \<and> (s = w \<or> (\<exists>h. digits h \<and> s = w @ CHR ''x'' # h)))"

text \<open>
  \<open>whitespaceBeforeSrc s\<close>: somewhere in \<open>s\<close> a whitespace character is followed by
  \<open>src=\<close>, in any case of the letters.
\<close>

definition startsWithSrc :: "string \<Rightarrow> bool" where
  "startsWithSrc t = (map canonicalize (take 4 t) = map canonicalize ''src='')"

fun whitespaceBeforeSrc :: "string \<Rightarrow> bool" where
  "whitespaceBeforeSrc [] = False"
| "whitespaceBeforeSrc (w # t) = ((isWhiteSpace w \<and> startsWithSrc t) \<or> whitespaceBeforeSrc t)"

section \<open>Facts about the matcher\<close>

lemma star_greedy_caps: "(j, t, c') \<in> set (star_greedy P i s c) \<Longrightarrow> c' = c"
  by (induction s arbitrary: i) (auto split: if_splits)

lemma star_lazy_caps: "(j, t, c') \<in> set (star_lazy P i s c) \<Longrightarrow> c' = c"
  by (induction s arbitrary: i) (auto split: if_splits)

lemma ms_caps_mono:
  "(j, t, c') \<in> set (ms r (i, s, c)) \<Longrightarrow> c n \<noteq> None \<Longrightarrow> c' n \<noteq> None"
proof (induction r arbitrary: i s c j t c')
  case (Seq a b)
  then obtain i1 s1 c1 where "(i1, s1, c1) \<in> set (ms a (i, s, c))" "(j, t, c') \<in> set (ms b (i1, s1, c1))"
    by auto
  with Seq show ?case by blast
next
  case (Alt a b)
  then show ?case by auto
next
  case (Opt a)
  then show ?case by auto
next
  case (Cap m a)
  then show ?case by (auto split: if_splits)
qed (auto split: list.splits if_splits dest: star_greedy_caps star_lazy_caps)

lemma ms_must_cap:
  "must_cap n r \<Longrightarrow> (j, t, c') \<in> set (ms r (i, s, c)) \<Longrightarrow> c' n \<noteq> None"
proof (induction r arbitrary: i s c j t c')
  case (Seq a b)
  from Seq.prems(2) obtain i1 s1 c1 where
    m: "(i1, s1, c1) \<in> set (ms a (i, s, c))" "(j, t, c') \<in> set (ms b (i1, s1, c1))"
    by auto
  show ?case
  proof (cases "must_cap n a")
    case True
    then have "c1 n \<noteq> None" using Seq.IH(1) m(1) by blast
    then show ?thesis using ms_caps_mono m(2) by blast
  next
    case False
    then have "must_cap n b" using Seq.prems(1) by simp
    then show ?thesis using Seq.IH(2) m(2) by blast
  qed
next
  case (Alt a b)
  then show ?case by auto
next
  case (Cap m a)
  then show ?case by (auto split: if_splits)
qed simp_all

lemma re_search_Some:
  "re_search r i s = Some m \<Longrightarrow>
     \<exists>k u j t. (j, t, groups m) \<in> set (ms r (k, u, Map.empty)) \<and> index m = k"
proof (induction s arbitrary: i)
  case Nil
  then show ?case by (auto split: list.splits) (metis list.set_intros(1))
next
  case (Cons x xs)
  show ?case
  proof (cases "ms r (i, x # xs, Map.empty)")
    case Nil
    with Cons show ?thesis by simp
  next
    case (Cons st sts)
    obtain j t c where st: "st = (j, t, c)" by (cases st)
    with Cons Cons.prems have "groups m = c" "index m = i" by auto
    moreover have "(j, t, c) \<in> set (ms r (i, x # xs, Map.empty))" using Cons st by simp
    ultimately show ?thesis by blast
  qed
qed

lemma re_match_must_cap:
  "must_cap n r \<Longrightarrow> re_match r s = Some m \<Longrightarrow> groups m n \<noteq> None"
  unfolding re_match_def using re_search_Some ms_must_cap by blast

lemma leads_Seq: "leads a st x \<Longrightarrow> leads b x y \<Longrightarrow> leads (Seq a b) st y"
  by (auto simp: leads_def)

lemma leads_Alt1: "leads a st x \<Longrightarrow> leads (Alt a b) st x"
  by (auto simp: leads_def)

lemma leads_Opt: "leads a st x \<Longrightarrow> fst x \<noteq> fst st \<Longrightarrow> leads (Opt a) st x"
  by (auto simp: leads_def)

lemma leads_Opt_skip: "ms a st = [] \<Longrightarrow> leads (Opt a) st st"
  by (simp add: leads_def)

lemma leads_Cap:
  "leads a (i, s, c) (j, t, c') \<Longrightarrow> leads (Cap n a) (i, s, c) (j, t, c'(n \<mapsto> take (j - i) s))"
  by (auto simp: leads_def)

lemma leads_Cls: "P x \<Longrightarrow> leads (Cls P) (i, x # s, c) (Suc i, s, c)"
  by (simp add: leads_def)

lemma leads_LazyStar: "leads (LazyStar P) (i, s, c) (i, s, c)"
  by (cases s) (simp_all add: leads_def)

lemma star_greedy_run:
  assumes "\<forall>x\<in>set p. P x" and "r = [] \<or> \<not> P (hd r)"
  shows "\<exists>tl. star_greedy P i (p @ r) c = (i + length p, r, c) # tl"
  using assms
proof (induction p arbitrary: i)
  case Nil
  then show ?case by (cases r) auto
next
  case (Cons a p)
  then obtain tl where "star_greedy P (Suc i) (p @ r) c = (Suc i + length p, r, c) # tl"
    by fastforce
  with Cons.prems show ?case by simp
qed

lemma leads_Star:
  "\<forall>x\<in>set p. P x \<Longrightarrow> r = [] \<or> \<not> P (hd r) \<Longrightarrow> leads (Star P) (i, p @ r, c) (i + length p, r, c)"
  using star_greedy_run by (simp add: leads_def)

lemma leads_Plus:
  assumes "p \<noteq> []" and "\<forall>x\<in>set p. P x" and "r = [] \<or> \<not> P (hd r)"
  shows "leads (Plus P) (i, p @ r, c) (i + length p, r, c)"
proof -
  from assms(1) obtain a p' where p: "p = a # p'" by (cases p) auto
  with assms obtain tl where "star_greedy P (Suc i) (p' @ r) c = (Suc i + length p', r, c) # tl"
    using star_greedy_run [of p' P r "Suc i" c] by auto
  with p assms(2) show ?thesis by (simp add: leads_def)
qed

lemma re_search_first:
  "leads r (i, s, Map.empty) (j, t, c) \<Longrightarrow>
     re_search r i s = Some \<lparr>index = i, matched = take (j - i) s, groups = c\<rparr>"
  by (cases s) (auto simp: leads_def)

lemma star_greedy_mem:
  "(j, t, c') \<in> set (star_greedy P i s c) \<Longrightarrow>
     \<exists>p. s = p @ t \<and> (\<forall>x\<in>set p. P x) \<and> j = i + length p \<and> c' = c"
proof (induction s arbitrary: i)
  case Nil
  then show ?case by simp
next
  case (Cons a s)
  show ?case
  proof (cases "(j, t, c') = (i, a # s, c)")
    case True
    then show ?thesis by simp
  next
    case False
    with Cons.prems have a: "P a" and "(j, t, c') \<in> set (star_greedy P (Suc i) s c)"
      by (auto split: if_splits)
    from Cons.IH [OF this(2)] obtain p where
      "s = p @ t" "\<forall>x\<in>set p. P x" "j = Suc i + length p" "c' = c" by blast
    with a have "a # s = (a # p) @ t \<and> (\<forall>x\<in>set (a # p). P x) \<and> j = i + length (a # p) \<and> c' = c"
      by simp
    then show ?thesis by blast
  qed
qed

lemma star_lazy_mem:
  "(j, t, c') \<in> set (star_lazy P i s c) \<Longrightarrow>
     \<exists>p. s = p @ t \<and> (\<forall>x\<in>set p. P x) \<and> j = i + length p \<and> c' = c"
proof (induction s arbitrary: i)
  case Nil
  then show ?case by simp
next
  case (Cons a s)
  show ?case
  proof (cases "(j, t, c') = (i, a # s, c)")
    case True
    then show ?thesis by simp
  next
    case False
    with Cons.prems have a: "P a" and "(j, t, c') \<in> set (star_lazy P (Suc i) s c)"
      by (auto split: if_splits)
    from Cons.IH [OF this(2)] obtain p where
      "s = p @ t" "\<forall>x\<in>set p. P x" "j = Suc i + length p" "c' = c" by blast
    with a have "a # s = (a # p) @ t \<and> (\<forall>x\<in>set (a # p). P x) \<and> j = i + length (a # p) \<and> c' = c"
      by simp
    then show ?thesis by blast
  qed
qed

lemma Plus_mem:
  assumes "(j, t, c') \<in> set (ms (Plus P) (i, s, c))"
  shows "\<exists>p. p \<noteq> [] \<and> s = p @ t \<and> (\<forall>x\<in>set p. P x) \<and> j = i + length p \<and> c' = c"
proof -
  from assms obtain a s' where s: "s = a # s'" "P a" "(j, t, c') \<in> set (star_greedy P (Suc i) s' c)"
    by (cases s) (auto split: if_splits)
  from star_greedy_mem [OF s(3)] obtain p where
    "s' = p @ t" "\<forall>x\<in>set p. P x" "j = Suc i + length p" "c' = c" by blast
  with s have "a # p \<noteq> [] \<and> s = (a # p) @ t \<and> (\<forall>x\<in>set (a # p). P x) \<and> j = i + length (a # p) \<and> c' = c"
    by simp
  then show ?thesis by blast
qed

lemma re_search_SomeD:
  "re_search r i s = Some m \<Longrightarrow>
     \<exists>pre u j t. s = pre @ u \<and> index m = i + length pre
        \<and> (j, t, groups m) \<in> set (ms r (i + length pre, u, Map.empty))"
proof (induction s arbitrary: i)
  case Nil
  show ?case
  proof (cases "ms r (i, [], Map.empty)")
    case Nil
    with Nil.prems show ?thesis by simp
  next
    case (Cons st sts)
    obtain j t c where st: "st = (j, t, c)" by (cases st)
    with Cons Nil.prems have "groups m = c" "index m = i" by auto
    with Cons st have "(j, t, groups m) \<in> set (ms r (i + length ([]::string), [], Map.empty))"
      by simp
    then show ?thesis using \<open>index m = i\<close> by (intro exI [of _ "[]"]) auto
  qed
next
  case (Cons x xs)
  show ?case
  proof (cases "ms r (i, x # xs, Map.empty)")
    case Nil
    with Cons.prems have "re_search r (Suc i) xs = Some m" by simp
    from Cons.IH [OF this] obtain pre u j t where
      "xs = pre @ u" "index m = Suc i + length pre"
      "(j, t, groups m) \<in> set (ms r (Suc i + length pre, u, Map.empty))" by blast
    then have "x # xs = (x # pre) @ u \<and> index m = i + length (x # pre)
        \<and> (j, t, groups m) \<in> set (ms r (i + length (x # pre), u, Map.empty))"
      by simp
    then show ?thesis by blast
  next
    case (Cons st sts)
    obtain j t c where st: "st = (j, t, c)" by (cases st)
    with Cons Cons.prems have "groups m = c" "index m = i" by auto
    with Cons st have "(j, t, groups m) \<in> set (ms r (i + length ([]::string), x # xs, Map.empty))"
      by simp
    then show ?thesis using \<open>index m = i\<close> by (intro exI [of _ "[]"] exI [of _ "x # xs"]) auto
  qed
qed

lemma Seq_mem: "x \<in> set (ms (Seq a b) st) \<Longrightarrow> \<exists>y\<in>set (ms a st). x \<in> set (ms b y)"
  by auto

lemma Opt_mem: "x \<in> set (ms (Opt a) st) \<Longrightarrow> x = st \<or> x \<in> set (ms a st)"
  by auto

lemma Cap_mem:
  "(j, t, c') \<in> set (ms (Cap n a) (i, s, c)) \<Longrightarrow> \<exists>c''. (j, t, c'') \<in> set (ms a (i, s, c))"
  by auto

lemma Cls_mem:
  "(j, t, c') \<in> set (ms (Cls P) (i, s, c)) \<Longrightarrow> s \<noteq> [] \<and> P (hd s) \<and> t = tl s \<and> j = Suc i \<and> c' = c"
  by (cases s) (auto split: if_splits)

lemma Eol_mem: "(j, t, c') \<in> set (ms Eol (i, s, c)) \<Longrightarrow> s = [] \<and> t = [] \<and> j = i \<and> c' = c"
  by (auto split: if_splits)

lemma Bol_mem: "(j, t, c') \<in> set (ms Bol (i, s, c)) \<Longrightarrow> i = 0 \<and> t = s \<and> j = i \<and> c' = c"
  by (auto split: if_splits)

section \<open>Escaping of the alt text\<close>

lemma replaceAll_removes:
  "c \<notin> set r \<Longrightarrow> c \<notin> set (replaceAll c r s)"
  by (induction s) (auto simp: replaceAll_def)

lemma replaceAll_keeps_out:
  "x \<notin> set s \<Longrightarrow> x \<notin> set r \<Longrightarrow> x \<notin> set (replaceAll c r s)"
  by (induction s) (auto simp: replaceAll_def)

lemma escapeHtml_no_lt: "CHR ''<'' \<notin> set (escapeHtml s)"
  unfolding escapeHtml_def
  by (intro replaceAll_keeps_out replaceAll_removes) simp_all

lemma escapeHtml_no_gt: "CHR ''>'' \<notin> set (escapeHtml s)"
  unfolding escapeHtml_def
  by (intro replaceAll_keeps_out replaceAll_removes) simp_all

lemma escapeHtml_no_dquote: "CHR 0x22 \<notin> set (escapeHtml s)"
  unfolding escapeHtml_def
  by (intro replaceAll_keeps_out replaceAll_removes) simp_all

lemma escapeHtml_no_squote: "CHR 0x27 \<notin> set (escapeHtml s)"
  unfolding escapeHtml_def
  by (intro replaceAll_keeps_out replaceAll_removes) simp_all

lemma safeAltText_no_dquote: "CHR 0x22 \<notin> set (safeAltText a)"
  by (simp add: safeAltText_def escapeHtml_no_dquote split: option.splits)

text \<open>
  Claim C10. For every string \<open>s\<close>, \<open>escapeHtml s\<close> contains none of the characters
  \<open><\<close>, \<open>>\<close>, the double quote and the single quote. So the value the rewriter puts
  between the quotes of the \<open>alt\<close> attribute (the escaped alt text, or the empty string)
  never contains a double quote: the tag is the opening of the \<open>alt\<close> attribute, that
  value, and a closing double quote before the rest of the tag.
\<close>

theorem escapeHtml_output_has_no_markup_characters:
  "CHR ''<'' \<notin> set (escapeHtml s) \<and> CHR ''>'' \<notin> set (escapeHtml s)
   \<and> CHR 0x22 \<notin> set (escapeHtml s) \<and> CHR 0x27 \<notin> set (escapeHtml s)
   \<and> CHR 0x22 \<notin> set (safeAltText a)
   \<and> (\<exists>rest. imgTag p a w h z = ''<img src='' @ [CHR 0x22] @ p @ [CHR 0x22] @ '' alt='' @ [CHR 0x22]
           @ safeAltText a @ [CHR 0x22] @ rest)"
  by (simp add: escapeHtml_no_lt escapeHtml_no_gt escapeHtml_no_dquote escapeHtml_no_squote
      safeAltText_no_dquote imgTag_def)

section \<open>Precedence of the notations\<close>

lemma markdownRegex_cap3: "must_cap 3 markdownRegex"
  by (simp add: markdownRegex_def lit_def chr_def)

lemma parseMarkdown_of_match:
  assumes "re_match markdownRegex l = Some m"
  shows "\<exists>r. parseMarkdown l = Some r \<and> \<not> isHtml r \<and> originalMatch r = matched m
             \<and> startIndexInLine r = index m"
proof -
  from re_match_must_cap [OF markdownRegex_cap3 assms] obtain p where "groups m 3 = Some p" by auto
  then show ?thesis using assms by (simp add: parseMarkdown_def Let_def)
qed

text \<open>
  Claim C1. On every line where both the Markdown pattern and the HTML-tag pattern have a
  match, wherever the two matches stand, \<open>parseImageSyntaxFromLine\<close> returns the result
  of \<open>parseMarkdown\<close>: a record that is not an HTML one and whose span is the match of
  the Markdown pattern.
\<close>

theorem markdown_notation_wins:
  assumes "re_match markdownRegex l = Some mm" and "re_match htmlImgRegex l = Some hm"
  shows "\<exists>r. parseImageSyntaxFromLine l = Some r \<and> parseMarkdown l = Some r \<and> \<not> isHtml r
             \<and> originalMatch r = matched mm \<and> startIndexInLine r = index mm"
  using parseMarkdown_of_match [OF assms(1)] by (auto simp: parseImageSyntaxFromLine_def)

lemma both_example_html: \<open>map_option index (re_match htmlImgRegex ''<img src="a.png"> ![c](b.png)'') = Some 0\<close>
  by code_simp

lemma both_example_markdown:
  \<open>map_option (\<lambda>m. (index m, matched m)) (re_match markdownRegex ''<img src="a.png"> ![c](b.png)'')
     = Some (18, ''![c](b.png)'')\<close>
  by code_simp

theorem markdown_notation_wins_witness:
  \<open>\<exists>mm hm r. re_match markdownRegex ''<img src="a.png"> ![c](b.png)'' = Some mm
      \<and> re_match htmlImgRegex ''<img src="a.png"> ![c](b.png)'' = Some hm
      \<and> index hm < index mm
      \<and> parseImageSyntaxFromLine ''<img src="a.png"> ![c](b.png)'' = Some r
      \<and> \<not> isHtml r \<and> originalMatch r = ''![c](b.png)'' \<and> startIndexInLine r = 18\<close>
proof -
  obtain hm where hm: \<open>re_match htmlImgRegex ''<img src="a.png"> ![c](b.png)'' = Some hm\<close> "index hm = 0"
    using both_example_html by (auto simp del: re_search.simps)
  obtain mm where mm: \<open>re_match markdownRegex ''<img src="a.png"> ![c](b.png)'' = Some mm\<close>
      "index mm = 18" \<open>matched mm = ''![c](b.png)''\<close>
    using both_example_markdown by (auto simp del: re_search.simps)
  from markdown_notation_wins [OF mm(1) hm(1)] hm mm show ?thesis by auto
qed

section \<open>Empty paths and untrimmed alt texts\<close>

text \<open>
  Claim C8. The claim says that the path of every successful parse is non-empty. The
  pattern asks for one character of path at least, but the parser trims the capture
  afterwards: on the line \<open>![a]( )\<close> the parse succeeds with the empty path.
\<close>

theorem parse_returns_empty_path:
  "parseImageSyntaxFromLine ''![a]( )'' =
     Some \<lparr>path = [], altText = Some ''a'', specifiedWidth = None, specifiedHeight = None,
           originalMatch = ''![a]( )'', startIndexInLine = 0, isHtml = False,
           currentZoomPercent = None\<rparr>"
  by code_simp

lemma wikilink_and_html_return_empty_path:
  "map_option path (parseImageSyntaxFromLine ''![[ ]]'') = Some []"
  \<open>map_option path (parseImageSyntaxFromLine ''<img src=" ">'') = Some []\<close>
  by code_simp+

text \<open>
  Claim C9. The claim says that the path and the alt text of every successful parse are
  trimmed. \<open>parseHtml\<close> trims both; \<open>parseMarkdown\<close> and \<open>parseWikilink\<close> trim the
  path only: on the line \<open>![ cap ](x.png)\<close> the alt text keeps its spaces.
\<close>

theorem markdown_alt_text_is_not_trimmed:
  "parseImageSyntaxFromLine ''![ cap ](x.png)'' =
     Some \<lparr>path = ''x.png'', altText = Some '' cap '', specifiedWidth = None,
           specifiedHeight = None, originalMatch = ''![ cap ](x.png)'', startIndexInLine = 0,
           isHtml = False, currentZoomPercent = None\<rparr>"
  by code_simp

lemma wikilink_alt_text_is_not_trimmed:
  "parseImageSyntaxFromLine ''![[a.png| cap ]]'' =
     Some \<lparr>path = ''a.png'', altText = Some '' cap '', specifiedWidth = None,
           specifiedHeight = None, originalMatch = ''![[a.png| cap ]]'', startIndexInLine = 0,
           isHtml = False, currentZoomPercent = None\<rparr>"
  by code_simp

lemma html_alt_text_is_trimmed:
  \<open>map_option (\<lambda>r. (path r, altText r)) (parseImageSyntaxFromLine ''<img src=" x.png " alt=" cap ">'')
     = Some (''x.png'', Some ''cap'')\<close>
  by code_simp

section \<open>The zoom during a drag\<close>

text \<open>
  Claim C3. For every baseline zoom and every two distances of the pointer to the centre
  of the image (at the press and now), the zoom computed on a pointer move lies between
  10 and 500.
\<close>

theorem zoom_on_move_is_clamped:
  "10 \<le> zoomForDistance zoom initialDistance currentDistance
   \<and> zoomForDistance zoom initialDistance currentDistance \<le> 500"
  by (simp add: zoomForDistance_def)

lemma handleDocumentMouseMove_sets_zoom:
  assumes "isDragging ctrl" "activeImgElement ctrl = Some img" "lineInfoAtDragStart ctrl = Some li"
    "draggedImageInfo ctrl = Some info" "dragPath info \<noteq> []"
  shows "\<exists>z. 10 \<le> z \<and> z \<le> 500
           \<and> handleDocumentMouseMove ctrl event
               = ctrl\<lparr>activeImgElement := Some (img\<lparr>styleZoom := showInt z @ ''%''\<rparr>)\<rparr>"
proof -
  let ?z = "zoomForDistance (dragZoomPercent ctrl) (initialDistanceToCenter ctrl)
              (distanceTo (imageCenterX ctrl) (imageCenterY ctrl) event)"
  have "10 \<le> ?z \<and> ?z \<le> 500" by (simp add: zoomForDistance_def)
  moreover have "handleDocumentMouseMove ctrl event
      = ctrl\<lparr>activeImgElement := Some (img\<lparr>styleZoom := showInt ?z @ ''%''\<rparr>)\<rparr>"
    using assms by (simp add: handleDocumentMouseMove_def Let_def)
  ultimately show ?thesis by blast
qed

section \<open>Arming a drag\<close>

lemma lineAt_span:
  assumes "lineAt d p = Inr l"
  shows "line_from l + length (line_text l) \<le> length d
         \<and> take (length (line_text l)) (drop (line_from l) d) = line_text l"
proof -
  let ?start = "p - length (takeWhile notLF (rev (take p d)))"
  let ?t = "takeWhile notLF (drop ?start d)"
  from assms have p: "p \<le> length d" and l: "l = \<lparr>line_from = ?start, line_to = ?start + length ?t, line_text = ?t\<rparr>"
    by (auto simp: lineAt_def Let_def split: if_splits)
  have "length ?t \<le> length (drop ?start d)" by (rule length_takeWhile_le)
  then have "?start + length ?t \<le> length d" using p by simp
  moreover have "take (length ?t) (drop ?start d) = ?t"
    by (simp add: takeWhile_eq_take [symmetric])
  ultimately show ?thesis using l by simp
qed

lemma getLineInfo_span:
  assumes "getLineInfoFromElement view posAtDOM = Some li"
  shows "lineFrom li + length (lineText li) \<le> length (doc view)
         \<and> take (length (lineText li)) (drop (lineFrom li) (doc view)) = lineText li"
proof -
  from assms obtain p l where "lineAt (doc view) p = Inr l" "lineText li = line_text l" "lineFrom li = line_from l"
    by (auto simp: getLineInfoFromElement_def split: option.splits sum.splits)
  then show ?thesis using lineAt_span by metis
qed

lemma startResize_convert:
  assumes "\<not> isHtml P"
    and "lineFrom li + startIndexInLine P + length (originalMatch P) \<le> length (doc view)"
  shows "\<exists>ctrl'. startResize ctrl view event img li P =
           Inr (ctrl',
                \<lparr>doc = take (lineFrom li + startIndexInLine P) (doc view)
                        @ imgTag (path P) (altText P) (specifiedWidth P) (specifiedHeight P) 100
                        @ drop (lineFrom li + startIndexInLine P + length (originalMatch P)) (doc view),
                 dispatched = dispatched view @
                   [\<lparr>changeFrom = lineFrom li + startIndexInLine P,
                     changeTo = lineFrom li + startIndexInLine P + length (originalMatch P),
                     changeInsert = imgTag (path P) (altText P) (specifiedWidth P) (specifiedHeight P) 100,
                     userEvent = ''image.resize.convert''\<rparr>]\<rparr>)
         \<and> isDragging ctrl' \<and> dragZoomPercent ctrl' = 100"
  using assms by (simp add: startResize_def Let_def dispatch_def)

lemma parse_markdown_cap:
  "parseImageSyntaxFromLine ''![cap](img.png)'' =
     Some \<lparr>path = ''img.png'', altText = Some ''cap'', specifiedWidth = None,
           specifiedHeight = None, originalMatch = ''![cap](img.png)'', startIndexInLine = 0,
           isHtml = False, currentZoomPercent = None\<rparr>"
  by code_simp

lemma imgTag_cap:
  \<open>imgTag ''img.png'' (Some ''cap'') None None 100 = ''<img src="img.png" alt="cap" style="zoom: 100%;">''\<close>
  by code_simp

text \<open>
  Claim C5. A press on an image with a resize cursor, on the line \<open>![cap](img.png)\<close>,
  gives the editor exactly one change. It replaces the 15 characters from the start of
  the line, which are the Markdown reference, by the tag with zoom 100.
\<close>

theorem arm_rewrites_markdown_once:
  assumes "sublist ''-resize'' (styleCursor imgElement)"
    and "getLineInfoFromElement view posAtDOM = Some lineInfo"
    and "lineText lineInfo = ''![cap](img.png)''"
  shows \<open>\<exists>ctrl' view'.
      handleImageSpecificMouseDown ctrl view event imgElement posAtDOM = Inr (ctrl', view')
      \<and> dispatched view' = dispatched view @
            [\<lparr>changeFrom = lineFrom lineInfo, changeTo = lineFrom lineInfo + 15,
              changeInsert = ''<img src="img.png" alt="cap" style="zoom: 100%;">'',
              userEvent = ''image.resize.convert''\<rparr>]
      \<and> take 15 (drop (lineFrom lineInfo) (doc view)) = ''![cap](img.png)''
      \<and> doc view' = take (lineFrom lineInfo) (doc view)
            @ ''<img src="img.png" alt="cap" style="zoom: 100%;">''
            @ drop (lineFrom lineInfo + 15) (doc view)
      \<and> isDragging ctrl' \<and> dragZoomPercent ctrl' = 100\<close>
proof -
  let ?P = "\<lparr>path = ''img.png'', altText = Some ''cap'', specifiedWidth = None,
           specifiedHeight = None, originalMatch = ''![cap](img.png)'', startIndexInLine = 0,
           isHtml = False, currentZoomPercent = None\<rparr>"
  have l15: "length (lineText lineInfo) = 15" using assms(3) by simp
  have span: "lineFrom lineInfo + 15 \<le> length (doc view)"
    "take 15 (drop (lineFrom lineInfo) (doc view)) = ''![cap](img.png)''"
    using getLineInfo_span [OF assms(2), unfolded l15] assms(3) by simp_all
  have h1: "\<not> isHtml ?P" by simp
  have sel: "startIndexInLine ?P = 0" "length (originalMatch ?P) = 15" by simp_all
  have h2: "lineFrom lineInfo + startIndexInLine ?P + length (originalMatch ?P) \<le> length (doc view)"
    unfolding sel using span(1) by simp
  obtain ctrl' where
    "startResize ctrl view event imgElement lineInfo ?P =
           Inr (ctrl',
                \<lparr>doc = take (lineFrom lineInfo) (doc view)
                        @ imgTag ''img.png'' (Some ''cap'') None None 100
                        @ drop (lineFrom lineInfo + 15) (doc view),
                 dispatched = dispatched view @
                   [\<lparr>changeFrom = lineFrom lineInfo,
                     changeTo = lineFrom lineInfo + 15,
                     changeInsert = imgTag ''img.png'' (Some ''cap'') None None 100,
                     userEvent = ''image.resize.convert''\<rparr>]\<rparr>)"
    "isDragging ctrl'" "dragZoomPercent ctrl' = 100"
    using startResize_convert [OF h1 h2, of ctrl event imgElement, unfolded sel] by auto
  then show ?thesis
    using assms span(2)
    by (simp add: handleImageSpecificMouseDown_def parse_markdown_cap imgTag_cap)
qed

lemma sublist_resize: "sublist ''-resize'' ''ew-resize''"
  by code_simp

lemma getLineInfo_example:
  "getLineInfoFromElement \<lparr>doc = ''![cap](img.png)'', dispatched = []\<rparr> (Some 3)
     = Some \<lparr>pos = 3, lineText = ''![cap](img.png)'', lineFrom = 0, lineTo = 15\<rparr>"
  by code_simp

theorem arm_rewrites_markdown_once_witness:
  \<open>sublist ''-resize'' ''ew-resize''
   \<and> getLineInfoFromElement \<lparr>doc = ''![cap](img.png)'', dispatched = []\<rparr> (Some 3)
        = Some \<lparr>pos = 3, lineText = ''![cap](img.png)'', lineFrom = 0, lineTo = 15\<rparr>
   \<and> (\<exists>ctrl' view'.
        handleImageSpecificMouseDown newController \<lparr>doc = ''![cap](img.png)'', dispatched = []\<rparr>
            \<lparr>clientX = 300, clientY = 100\<rparr>
            \<lparr>offsetWidth = 300, rectLeft = 0, rectTop = 0, rectWidth = 300, rectHeight = 200,
             styleZoom = [], styleCursor = ''ew-resize''\<rparr> (Some 3) = Inr (ctrl', view')
        \<and> dispatched view' =
              [\<lparr>changeFrom = 0, changeTo = 15,
                changeInsert = ''<img src="img.png" alt="cap" style="zoom: 100%;">'',
                userEvent = ''image.resize.convert''\<rparr>]
        \<and> doc view' = ''<img src="img.png" alt="cap" style="zoom: 100%;">'')\<close>
proof -
  let ?img = "\<lparr>offsetWidth = 300, rectLeft = 0, rectTop = 0, rectWidth = 300, rectHeight = 200,
             styleZoom = [], styleCursor = ''ew-resize''\<rparr>"
  let ?li = "\<lparr>pos = 3, lineText = ''![cap](img.png)'', lineFrom = 0, lineTo = 15\<rparr>"
  have h1: "sublist ''-resize'' (styleCursor ?img)" by (simp add: sublist_resize)
  have h3: "lineText ?li = ''![cap](img.png)''" by simp
  from arm_rewrites_markdown_once [OF h1 getLineInfo_example h3, of newController "\<lparr>clientX = 300, clientY = 100\<rparr>"]
  obtain ctrl' view' where
    "handleImageSpecificMouseDown newController \<lparr>doc = ''![cap](img.png)'', dispatched = []\<rparr>
       \<lparr>clientX = 300, clientY = 100\<rparr> ?img (Some 3) = Inr (ctrl', view')"
    \<open>dispatched view' =
       [\<lparr>changeFrom = 0, changeTo = 15,
         changeInsert = ''<img src="img.png" alt="cap" style="zoom: 100%;">'',
         userEvent = ''image.resize.convert''\<rparr>]\<close>
    \<open>doc view' = ''<img src="img.png" alt="cap" style="zoom: 100%;">''\<close>
    by auto
  then show ?thesis using sublist_resize getLineInfo_example by blast
qed

lemma startResize_html:
  assumes "isHtml P"
  shows "\<exists>ctrl'. startResize ctrl view event img li P = Inr (ctrl', view)
           \<and> isDragging ctrl'
           \<and> dragZoomPercent ctrl' = (case currentZoomPercent P of Some z \<Rightarrow> int z | None \<Rightarrow> 100)"
  using assms by (simp add: startResize_def Let_def)

lemma parse_html_zoom80:
  \<open>map_option (\<lambda>r. (path r, isHtml r, currentZoomPercent r))
      (parseImageSyntaxFromLine ''<img src="x.png" style="zoom: 80%;">'')
     = Some (''x.png'', True, Some 80)\<close>
  by code_simp

text \<open>
  Claim C6. When the notation parsed at the press is an HTML tag, arming gives the editor
  no change: the view is returned as it was. The baseline zoom of the session is the
  parsed zoom, 100 when the tag has none; on the line
  \<open><img src="x.png" style="zoom: 80%;">\<close> it is 80.
\<close>

theorem arm_on_html_leaves_text:
  assumes "sublist ''-resize'' (styleCursor imgElement)"
    and "getLineInfoFromElement view posAtDOM = Some lineInfo"
    and "parseImageSyntaxFromLine (lineText lineInfo) = Some parsedInfo"
    and "isHtml parsedInfo"
  shows \<open>\<exists>ctrl'.
      handleImageSpecificMouseDown ctrl view event imgElement posAtDOM = Inr (ctrl', view)
      \<and> isDragging ctrl'
      \<and> dragZoomPercent ctrl' = (case currentZoomPercent parsedInfo of Some z \<Rightarrow> int z | None \<Rightarrow> 100)
      \<and> (lineText lineInfo = ''<img src="x.png" style="zoom: 80%;">'' \<longrightarrow> dragZoomPercent ctrl' = 80)\<close>
proof -
  from startResize_html [OF assms(4)] obtain ctrl' where
    c: "startResize ctrl view event imgElement lineInfo parsedInfo = Inr (ctrl', view)"
      "isDragging ctrl'"
      "dragZoomPercent ctrl' = (case currentZoomPercent parsedInfo of Some z \<Rightarrow> int z | None \<Rightarrow> 100)"
    by blast
  have \<open>lineText lineInfo = ''<img src="x.png" style="zoom: 80%;">'' \<Longrightarrow> currentZoomPercent parsedInfo = Some 80\<close>
    using parse_html_zoom80 assms(3) by (auto simp del: re_search.simps)
  with c assms(1,2,3) show ?thesis
    by (auto simp: handleImageSpecificMouseDown_def)
qed

lemma getLineInfo_html_example:
  \<open>getLineInfoFromElement \<lparr>doc = ''<img src="x.png" style="zoom: 80%;">'', dispatched = []\<rparr> (Some 5)
     = Some \<lparr>pos = 5, lineText = ''<img src="x.png" style="zoom: 80%;">'', lineFrom = 0, lineTo = 36\<rparr>\<close>
  by code_simp

theorem arm_on_html_leaves_text_witness:
  \<open>\<exists>parsedInfo ctrl'.
      parseImageSyntaxFromLine ''<img src="x.png" style="zoom: 80%;">'' = Some parsedInfo
      \<and> isHtml parsedInfo
      \<and> handleImageSpecificMouseDown newController
            \<lparr>doc = ''<img src="x.png" style="zoom: 80%;">'', dispatched = []\<rparr>
            \<lparr>clientX = 300, clientY = 100\<rparr>
            \<lparr>offsetWidth = 300, rectLeft = 0, rectTop = 0, rectWidth = 300, rectHeight = 200,
             styleZoom = [], styleCursor = ''ew-resize''\<rparr> (Some 5)
          = Inr (ctrl', \<lparr>doc = ''<img src="x.png" style="zoom: 80%;">'', dispatched = []\<rparr>)
      \<and> isDragging ctrl' \<and> dragZoomPercent ctrl' = 80\<close>
proof -
  let ?img = "\<lparr>offsetWidth = 300, rectLeft = 0, rectTop = 0, rectWidth = 300, rectHeight = 200,
             styleZoom = [], styleCursor = ''ew-resize''\<rparr>"
  let ?li = \<open>\<lparr>pos = 5, lineText = ''<img src="x.png" style="zoom: 80%;">'', lineFrom = 0, lineTo = 36\<rparr>\<close>
  obtain parsedInfo where p: \<open>parseImageSyntaxFromLine ''<img src="x.png" style="zoom: 80%;">'' = Some parsedInfo\<close>
      "isHtml parsedInfo"
    using parse_html_zoom80 by (auto simp del: re_search.simps)
  have h1: "sublist ''-resize'' (styleCursor ?img)" by (simp add: sublist_resize)
  have h3: "parseImageSyntaxFromLine (lineText ?li) = Some parsedInfo" using p(1) by simp
  from arm_on_html_leaves_text [OF h1 getLineInfo_html_example h3 p(2), of newController "\<lparr>clientX = 300, clientY = 100\<rparr>"]
  show ?thesis using p by auto
qed

section \<open>The commit\<close>

text \<open>
  \<open>handleDocumentMouseUp\<close> has a branch that gives up the commit: with a drag session and
  a readable line at the session's line start, if the pattern for an HTML tag with the
  session's path has no match on the current text of the line, and parsing the line text
  of the snapshot gives no record with the session's path, it calls \<open>resetState\<close> and
  returns the view as it was.
\<close>

lemma commit_abort_branch:
  assumes "isDragging ctrl"
    and "activeImgElement ctrl = Some imgElement"
    and "lineInfoAtDragStart ctrl = Some lineInfo"
    and "draggedImageInfo ctrl = Some info"
    and "lineAt (doc view) (lineFrom lineInfo) = Inr line"
    and "re_match (imgTagToReplaceRegex (dragPath info)) (line_text line) = None"
    and "\<forall>r. parseImageSyntaxFromLine (lineText lineInfo) = Some r \<longrightarrow> path r \<noteq> dragPath info"
  shows "handleDocumentMouseUp ctrl view = Inr (resetState ctrl, view)"
  using assms
  by (auto simp: handleDocumentMouseUp_def Let_def split: option.splits)

text \<open>
  No session of the program reaches that branch. A session armed by
  \<open>handleImageSpecificMouseDown\<close> keeps the line text it parsed and the path of that
  parse, so parsing the snapshot again always gives the session's path.
\<close>

lemma armed_session_reparses:
  assumes "handleImageSpecificMouseDown ctrl view event imgElement posAtDOM = Inr (ctrl', view')"
    and "\<not> isDragging ctrl" and "isDragging ctrl'"
  shows "\<exists>lineInfo info r. lineInfoAtDragStart ctrl' = Some lineInfo
           \<and> draggedImageInfo ctrl' = Some info
           \<and> parseImageSyntaxFromLine (lineText lineInfo) = Some r \<and> path r = dragPath info"
proof -
  from assms obtain lineInfo r where
    l: "parseImageSyntaxFromLine (lineText lineInfo) = Some r"
    and s: "startResize ctrl view event imgElement lineInfo r = Inr (ctrl', view')"
    by (auto simp: handleImageSpecificMouseDown_def split: if_splits option.splits)
  from s have "lineInfoAtDragStart ctrl' = Some lineInfo
      \<and> (\<exists>info. draggedImageInfo ctrl' = Some info \<and> dragPath info = path r)"
    by (auto simp: startResize_def Let_def split: if_splits sum.splits)
  with l show ?thesis by auto
qed






section \<open>The suffix of a Wikilink\<close>

lemma dimRegex_unfold:
  "dimRegex = Seq Bol (Seq (Cap 1 (Plus isDigit))
                 (Seq (Opt (Seq (Cls (\<lambda>c. c = CHR ''x'')) (Cap 2 (Plus isDigit)))) Eol))"
  by (simp add: dimRegex_def chr_def)

lemma digitsD: "digits w \<Longrightarrow> w \<noteq> [] \<and> (\<forall>x\<in>set w. isDigit x)"
  by (simp add: digits_def list_all_iff)

lemma x_not_digit: "\<not> isDigit CHR ''x''"
  by (simp add: isDigit_def)

lemma dim_match_width:
  assumes "digits w"
  shows "re_match dimRegex w = Some \<lparr>index = 0, matched = w, groups = [1 \<mapsto> w]\<rparr>"
proof -
  from digitsD [OF assms] have w: "w \<noteq> []" "\<forall>x\<in>set w. isDigit x" by simp_all
  have a: "leads Bol (0, w, Map.empty) (0, w, Map.empty)" by (simp add: leads_def)
  have "leads (Plus isDigit) (0, w @ [], Map.empty) (0 + length w, [], Map.empty)"
    using w by (intro leads_Plus) simp_all
  from leads_Cap [OF this, of 1]
  have b: "leads (Cap 1 (Plus isDigit)) (0, w, Map.empty) (length w, [], [1 \<mapsto> w])" by simp
  have c: "leads (Opt (Seq (Cls (\<lambda>c. c = CHR ''x'')) (Cap 2 (Plus isDigit)))) (length w, [], [1 \<mapsto> w])
             (length w, [], [1 \<mapsto> w])"
    by (intro leads_Opt_skip) simp
  have d: "leads Eol (length w, [], [1 \<mapsto> w]) (length w, [], [1 \<mapsto> w])" by (simp add: leads_def)
  have "leads dimRegex (0, w, Map.empty) (length w, [], [1 \<mapsto> w])"
    unfolding dimRegex_unfold by (intro leads_Seq [OF a] leads_Seq [OF b] leads_Seq [OF c] d)
  from re_search_first [OF this] show ?thesis by (simp add: re_match_def)
qed

lemma dim_match_both:
  assumes "digits w" and "digits h"
  shows "re_match dimRegex (w @ CHR ''x'' # h)
           = Some \<lparr>index = 0, matched = w @ CHR ''x'' # h, groups = [1 \<mapsto> w, 2 \<mapsto> h]\<rparr>"
proof -
  from digitsD [OF assms(1)] have w: "w \<noteq> []" "\<forall>x\<in>set w. isDigit x" by simp_all
  from digitsD [OF assms(2)] have h: "h \<noteq> []" "\<forall>x\<in>set h. isDigit x" by simp_all
  let ?s = "w @ CHR ''x'' # h"
  let ?n = "length w"
  have a: "leads Bol (0, ?s, Map.empty) (0, ?s, Map.empty)" by (simp add: leads_def)
  have "leads (Plus isDigit) (0, ?s, Map.empty) (0 + ?n, CHR ''x'' # h, Map.empty)"
    using w x_not_digit by (intro leads_Plus) simp_all
  from leads_Cap [OF this, of 1]
  have b: "leads (Cap 1 (Plus isDigit)) (0, ?s, Map.empty) (?n, CHR ''x'' # h, [1 \<mapsto> w])" by simp
  have c1: "leads (Cls (\<lambda>c. c = CHR ''x'')) (?n, CHR ''x'' # h, [1 \<mapsto> w]) (Suc ?n, h, [1 \<mapsto> w])"
    by (intro leads_Cls) simp
  have "leads (Plus isDigit) (Suc ?n, h @ [], [1 \<mapsto> w]) (Suc ?n + length h, [], [1 \<mapsto> w])"
    using h by (intro leads_Plus) simp_all
  from leads_Cap [OF this, of 2]
  have c2: "leads (Cap 2 (Plus isDigit)) (Suc ?n, h, [1 \<mapsto> w]) (Suc ?n + length h, [], [1 \<mapsto> w, 2 \<mapsto> h])"
    by simp
  have c: "leads (Opt (Seq (Cls (\<lambda>c. c = CHR ''x'')) (Cap 2 (Plus isDigit)))) (?n, CHR ''x'' # h, [1 \<mapsto> w])
             (Suc ?n + length h, [], [1 \<mapsto> w, 2 \<mapsto> h])"
    by (intro leads_Opt leads_Seq [OF c1 c2]) simp
  have d: "leads Eol (Suc ?n + length h, [], [1 \<mapsto> w, 2 \<mapsto> h]) (Suc ?n + length h, [], [1 \<mapsto> w, 2 \<mapsto> h])"
    by (simp add: leads_def)
  have "leads dimRegex (0, ?s, Map.empty) (Suc ?n + length h, [], [1 \<mapsto> w, 2 \<mapsto> h])"
    unfolding dimRegex_unfold by (intro leads_Seq [OF a] leads_Seq [OF b] leads_Seq [OF c] d)
  from re_search_first [OF this] show ?thesis by (simp add: re_match_def)
qed

lemma dim_match_only:
  assumes "re_match dimRegex s = Some m"
  shows "isDimensionSuffix s"
proof -
  from re_search_SomeD [OF assms [unfolded re_match_def]] obtain pre u j t where
    s: "s = pre @ u" and m: "(j, t, groups m) \<in> set (ms dimRegex (0 + length pre, u, Map.empty))"
    by blast
  from Seq_mem [OF m [unfolded dimRegex_unfold]] obtain i0 s0 c0 where
    y0: "(i0, s0, c0) \<in> set (ms Bol (0 + length pre, u, Map.empty))"
    and m1: "(j, t, groups m) \<in> set (ms (Seq (Cap 1 (Plus isDigit))
                 (Seq (Opt (Seq (Cls (\<lambda>c. c = CHR ''x'')) (Cap 2 (Plus isDigit)))) Eol)) (i0, s0, c0))"
    by (metis prod_cases3)
  from Bol_mem [OF y0] s have s0: "s0 = s" by simp
  from Seq_mem [OF m1] obtain i1 s1 c1 where
    y1: "(i1, s1, c1) \<in> set (ms (Cap 1 (Plus isDigit)) (i0, s0, c0))"
    and m2: "(j, t, groups m) \<in> set (ms (Seq (Opt (Seq (Cls (\<lambda>c. c = CHR ''x'')) (Cap 2 (Plus isDigit)))) Eol)
                 (i1, s1, c1))"
    by (metis prod_cases3)
  from Cap_mem [OF y1] obtain c1' where "(i1, s1, c1') \<in> set (ms (Plus isDigit) (i0, s0, c0))" by blast
  from Plus_mem [OF this] s0 obtain w where w: "w \<noteq> []" "s = w @ s1" "\<forall>x\<in>set w. isDigit x" by blast
  then have dw: "digits w" by (simp add: digits_def list_all_iff)
  from Seq_mem [OF m2] obtain i2 s2 c2 where
    y2: "(i2, s2, c2) \<in> set (ms (Opt (Seq (Cls (\<lambda>c. c = CHR ''x'')) (Cap 2 (Plus isDigit)))) (i1, s1, c1))"
    and m3: "(j, t, groups m) \<in> set (ms Eol (i2, s2, c2))"
    by (metis prod_cases3)
  from Eol_mem [OF m3] have s2: "s2 = []" by simp
  from Opt_mem [OF y2] show ?thesis
  proof
    assume "(i2, s2, c2) = (i1, s1, c1)"
    with s2 w dw show ?thesis by (auto simp: isDimensionSuffix_def)
  next
    assume "(i2, s2, c2) \<in> set (ms (Seq (Cls (\<lambda>c. c = CHR ''x'')) (Cap 2 (Plus isDigit))) (i1, s1, c1))"
    from Seq_mem [OF this] obtain i3 s3 c3 where
      y3: "(i3, s3, c3) \<in> set (ms (Cls (\<lambda>c. c = CHR ''x'')) (i1, s1, c1))"
      and m4: "(i2, s2, c2) \<in> set (ms (Cap 2 (Plus isDigit)) (i3, s3, c3))"
      by (metis prod_cases3)
    from Cls_mem [OF y3] have s1: "s1 = CHR ''x'' # s3" by (cases s1) auto
    from Cap_mem [OF m4] obtain c2' where "(i2, s2, c2') \<in> set (ms (Plus isDigit) (i3, s3, c3))" by blast
    from Plus_mem [OF this] s2 have "s3 \<noteq> []" "\<forall>x\<in>set s3. isDigit x" by auto
    then have "digits s3" by (simp add: digits_def list_all_iff)
    with dw w s1 show ?thesis by (auto simp: isDimensionSuffix_def)
  qed
qed

lemma wikilinkRegex_cap1: "must_cap 1 wikilinkRegex"
  by (simp add: wikilinkRegex_def lit_def chr_def)

lemma parseWikilink_suffix:
  assumes "re_match wikilinkRegex l = Some m" and "groups m 2 = Some sfx"
  shows "\<exists>p. parseWikilink l =
     Some \<lparr>path = trim p,
           altText = (case (if sfx = [] then None else re_match dimRegex sfx) of
                        None \<Rightarrow> Some sfx | Some d \<Rightarrow> None),
           specifiedWidth = (case (if sfx = [] then None else re_match dimRegex sfx) of
                        None \<Rightarrow> None | Some d \<Rightarrow> map_option parseInt (truthy (groups d 1))),
           specifiedHeight = (case (if sfx = [] then None else re_match dimRegex sfx) of
                        None \<Rightarrow> None | Some d \<Rightarrow> map_option parseInt (truthy (groups d 2))),
           originalMatch = matched m, startIndexInLine = index m, isHtml = False,
           currentZoomPercent = None\<rparr>"
proof -
  from re_match_must_cap [OF wikilinkRegex_cap1 assms(1)] obtain p where "groups m 1 = Some p" by auto
  then show ?thesis using assms by (auto simp: parseWikilink_def Let_def truthy_def)
qed

lemma wikilink_examples:
  "parseImageSyntaxFromLine ''![[a.png|150]]'' =
     Some \<lparr>path = ''a.png'', altText = None, specifiedWidth = Some 150, specifiedHeight = None,
           originalMatch = ''![[a.png|150]]'', startIndexInLine = 0, isHtml = False,
           currentZoomPercent = None\<rparr>"
  "parseImageSyntaxFromLine ''![[a.png|150x80]]'' =
     Some \<lparr>path = ''a.png'', altText = None, specifiedWidth = Some 150, specifiedHeight = Some 80,
           originalMatch = ''![[a.png|150x80]]'', startIndexInLine = 0, isHtml = False,
           currentZoomPercent = None\<rparr>"
  "parseImageSyntaxFromLine ''![[a.png|caption]]'' =
     Some \<lparr>path = ''a.png'', altText = Some ''caption'', specifiedWidth = None, specifiedHeight = None,
           originalMatch = ''![[a.png|caption]]'', startIndexInLine = 0, isHtml = False,
           currentZoomPercent = None\<rparr>"
  by code_simp+

text \<open>
  Claim C7. Let the Wikilink pattern match a line with a sfx after the pipe. If the
  sfx is a non-empty run of digits \<open>w\<close>, or \<open>w\<close>, the letter x and a second such run
  \<open>h\<close>, the record has no alt text, width \<open>w\<close> and height \<open>h\<close> (none in the first case).
  If the sfx has neither form, the alt text is the sfx as it stands and the record has
  no width and no height. The three lines of the claim parse as it says.
\<close>

theorem wikilink_suffix_is_dimensions_or_alt_text:
  assumes "re_match wikilinkRegex l = Some m" and "groups m 2 = Some sfx"
  shows "\<exists>r. parseWikilink l = Some r
      \<and> (\<forall>w. digits w \<and> sfx = w \<longrightarrow>
            altText r = None \<and> specifiedWidth r = Some (parseInt w) \<and> specifiedHeight r = None)
      \<and> (\<forall>w h. digits w \<and> digits h \<and> sfx = w @ CHR ''x'' # h \<longrightarrow>
            altText r = None \<and> specifiedWidth r = Some (parseInt w)
            \<and> specifiedHeight r = Some (parseInt h))
      \<and> (\<not> isDimensionSuffix sfx \<longrightarrow>
            altText r = Some sfx \<and> specifiedWidth r = None \<and> specifiedHeight r = None)
      \<and> parseImageSyntaxFromLine ''![[a.png|150]]'' =
            Some \<lparr>path = ''a.png'', altText = None, specifiedWidth = Some 150, specifiedHeight = None,
                  originalMatch = ''![[a.png|150]]'', startIndexInLine = 0, isHtml = False,
                  currentZoomPercent = None\<rparr>
      \<and> parseImageSyntaxFromLine ''![[a.png|150x80]]'' =
            Some \<lparr>path = ''a.png'', altText = None, specifiedWidth = Some 150,
                  specifiedHeight = Some 80, originalMatch = ''![[a.png|150x80]]'',
                  startIndexInLine = 0, isHtml = False, currentZoomPercent = None\<rparr>
      \<and> parseImageSyntaxFromLine ''![[a.png|caption]]'' =
            Some \<lparr>path = ''a.png'', altText = Some ''caption'', specifiedWidth = None,
                  specifiedHeight = None, originalMatch = ''![[a.png|caption]]'',
                  startIndexInLine = 0, isHtml = False, currentZoomPercent = None\<rparr>"
proof -
  from parseWikilink_suffix [OF assms] obtain r where
    r: "parseWikilink l = Some r"
       "altText r = (case (if sfx = [] then None else re_match dimRegex sfx) of
                        None \<Rightarrow> Some sfx | Some d \<Rightarrow> None)"
       "specifiedWidth r = (case (if sfx = [] then None else re_match dimRegex sfx) of
                        None \<Rightarrow> None | Some d \<Rightarrow> map_option parseInt (truthy (groups d 1)))"
       "specifiedHeight r = (case (if sfx = [] then None else re_match dimRegex sfx) of
                        None \<Rightarrow> None | Some d \<Rightarrow> map_option parseInt (truthy (groups d 2)))"
    by force
  have a: "altText r = None \<and> specifiedWidth r = Some (parseInt w) \<and> specifiedHeight r = None"
    if "digits w" "sfx = w" for w
    using that r dim_match_width [OF that(1)] digitsD [OF that(1)] by (simp add: truthy_def)
  have b: "altText r = None \<and> specifiedWidth r = Some (parseInt w) \<and> specifiedHeight r = Some (parseInt h)"
    if "digits w" "digits h" "sfx = w @ CHR ''x'' # h" for w h
    using that r dim_match_both [OF that(1,2)] digitsD [OF that(1)] digitsD [OF that(2)]
    by (simp add: truthy_def)
  have c: "altText r = Some sfx \<and> specifiedWidth r = None \<and> specifiedHeight r = None"
    if "\<not> isDimensionSuffix sfx"
  proof -
    have "re_match dimRegex sfx = None" using that dim_match_only by (cases "re_match dimRegex sfx") auto
    with r show ?thesis by simp
  qed
  from r(1) a b c wikilink_examples show ?thesis by blast
qed

lemma wikilink_suffix_example:
  "map_option (\<lambda>m. groups m 2) (re_match wikilinkRegex ''![[a.png|150x80]]'') = Some (Some ''150x80'')"
  by code_simp

lemma digits_examples: "digits ''150''" "digits ''80''" "parseInt ''150'' = 150" "parseInt ''80'' = 80"
  by code_simp+

theorem wikilink_suffix_is_dimensions_or_alt_text_witness:
  "\<exists>m r. re_match wikilinkRegex ''![[a.png|150x80]]'' = Some m
      \<and> groups m 2 = Some ''150x80''
      \<and> digits ''150'' \<and> digits ''80''
      \<and> parseWikilink ''![[a.png|150x80]]'' = Some r
      \<and> altText r = None \<and> specifiedWidth r = Some 150 \<and> specifiedHeight r = Some 80"
proof -
  obtain m where m: "re_match wikilinkRegex ''![[a.png|150x80]]'' = Some m" "groups m 2 = Some ''150x80''"
    using wikilink_suffix_example by (auto simp del: re_search.simps)
  from wikilink_suffix_is_dimensions_or_alt_text [OF m] obtain r where
    r: "parseWikilink ''![[a.png|150x80]]'' = Some r"
       "\<forall>w h. digits w \<and> digits h \<and> ''150x80'' = w @ CHR ''x'' # h \<longrightarrow>
            altText r = None \<and> specifiedWidth r = Some (parseInt w)
            \<and> specifiedHeight r = Some (parseInt h)"
    by blast
  have "''150x80'' = ''150'' @ CHR ''x'' # ''80''" by simp
  with r(2) digits_examples have "altText r = None \<and> specifiedWidth r = Some 150 \<and> specifiedHeight r = Some 80"
    by metis
  with m r(1) digits_examples show ?thesis by blast
qed

section \<open>Numbers, trimming and literals\<close>

lemma digitChar_table: "\<forall>d\<in>set [0..<10]. isDigit (digitChar d) \<and> digitValue (digitChar d) = d"
  by code_simp

lemma digitChar_props: "d < 10 \<Longrightarrow> isDigit (digitChar d) \<and> digitValue (digitChar d) = d"
  using digitChar_table by (simp del: upt_Suc)

lemma showNat_digits: "showNat n \<noteq> [] \<and> (\<forall>x\<in>set (showNat n). isDigit x)"
proof (induction n rule: showNat.induct)
  case (1 n)
  show ?case
  proof (cases "n < 10")
    case True
    then show ?thesis using digitChar_props [of n] by (simp add: showNat.simps [of n])
  next
    case False
    then show ?thesis using 1 digitChar_props [of "n mod 10"] by (simp add: showNat.simps [of n])
  qed
qed

lemma foldl_showNat: "foldl (\<lambda>n c. 10 * n + digitValue c) 0 (showNat n) = n"
proof (induction n rule: showNat.induct)
  case (1 n)
  show ?case
  proof (cases "n < 10")
    case True
    then show ?thesis using digitChar_props [of n] by (simp add: showNat.simps [of n])
  next
    case False
    then show ?thesis using 1 digitChar_props [of "n mod 10"] by (simp add: showNat.simps [of n])
  qed
qed

lemma parseInt_showNat: "parseInt (showNat n) = n"
proof -
  have "takeWhile isDigit (showNat n) = showNat n" using showNat_digits by (simp add: takeWhile_eq_all_conv)
  then show ?thesis unfolding parseInt_def by (simp only: foldl_showNat)
qed

lemma trim_id: "s \<noteq> [] \<Longrightarrow> \<not> isWhiteSpace (hd s) \<Longrightarrow> \<not> isWhiteSpace (last s) \<Longrightarrow> trim s = s"
proof -
  assume a: "s \<noteq> []" "\<not> isWhiteSpace (hd s)" "\<not> isWhiteSpace (last s)"
  then have "dropWhile isWhiteSpace s = s" by (cases s) auto
  moreover have "dropWhile isWhiteSpace (rev s) = rev s" using a by (cases "rev s") (auto simp: hd_rev)
  ultimately show ?thesis by (simp add: trim_def)
qed


lemma concat_map_Eps: "concat (map (ms Eps) xs) = xs"
  by (induction xs) simp_all

lemma ms_seqs_Cons: "ms (seqs (r # rs)) st = concat (map (ms (seqs rs)) (ms r st))"
  by (cases rs) (simp_all add: concat_map_Eps)

lemma leads_lit_i:
  "map canonicalize s' = map canonicalize s \<Longrightarrow> leads (lit_i s) (i, s' @ r, c) (i + length s, r, c)"
proof (induction s arbitrary: s' i)
  case Nil
  then show ?case by (simp add: leads_def lit_i_def)
next
  case (Cons a s)
  then obtain a' s'' where s': "s' = a' # s''" "canonicalize a' = canonicalize a"
    "map canonicalize s'' = map canonicalize s" by (cases s') auto
  from Cons.IH [OF s'(3), of "Suc i"] obtain tl where
    "ms (seqs (map chr_i s)) (Suc i, s'' @ r, c) = (Suc i + length s, r, c) # tl"
    by (auto simp: leads_def lit_i_def)
  then show ?case using s' by (simp add: leads_def lit_i_def ms_seqs_Cons chr_i_def)
qed

lemma leads_lit_i_same: "leads (lit_i s) (i, s @ r, c) (i + length s, r, c)"
  by (rule leads_lit_i) simp

lemma leads_Seq_Opt_dead:
  assumes "\<forall>x\<in>set (ms a st). ms b x = []" and "leads b st y"
  shows "leads (Seq (Opt a) b) st y"
proof -
  have e: "concat (map (ms b) (filter (\<lambda>st'. fst st' \<noteq> fst st) (ms a st))) = []"
    using assms(1) by simp
  from assms(2) obtain tl where "ms b st = y # tl" by (auto simp: leads_def)
  then have "ms (Seq (Opt a) b) st = y # tl" by (simp add: e)
  then show ?thesis by (simp add: leads_def)
qed

lemma ms_Seq_empty: "ms a st = [] \<Longrightarrow> ms (Seq a b) st = []"
  by simp

lemma re_search_skip:
  assumes "\<And>i x s. x \<in> set u \<Longrightarrow> ms r (i, x # s, Map.empty) = []"
  shows "re_search r i (u @ v) = re_search r (i + length u) v"
  using assms by (induction u arbitrary: i) simp_all

lemma re_search_none:
  assumes "\<And>i x s. x \<in> set u \<Longrightarrow> ms r (i, x # s, Map.empty) = []"
    and "\<And>i. ms r (i, [], Map.empty) = []"
  shows "re_search r i u = None"
  using assms by (induction u arbitrary: i) simp_all

section \<open>Reading back the rendered tag\<close>

lemma canon_src:
  "canonicalize CHR ''s'' = 83" "canonicalize CHR ''r'' = 82" "canonicalize CHR ''c'' = 67"
  "canonicalize CHR ''='' = 61"
  by (simp_all add: canonicalize_def)

lemma wsb_intro: "isWhiteSpace w \<Longrightarrow> startsWithSrc t \<Longrightarrow> whitespaceBeforeSrc (u @ w # t)"
  by (induction u) simp_all

lemma wsb_no_ws: "\<forall>x\<in>set a. \<not> isWhiteSpace x \<Longrightarrow> whitespaceBeforeSrc (a @ b) = whitespaceBeforeSrc b"
  by (induction a) simp_all

lemma list_cases4:
  obtains "a = []" | x1 where "a = [x1]" | x1 x2 where "a = [x1, x2]"
  | x1 x2 x3 where "a = [x1, x2, x3]" | x1 x2 x3 x4 r where "a = x1 # x2 # x3 # x4 # r"
proof (cases a)
  case Nil
  then show ?thesis using that by simp
next
  case c1: (Cons x1 a1)
  show ?thesis
  proof (cases a1)
    case Nil
    then show ?thesis using that c1 by simp
  next
    case c2: (Cons x2 a2)
    show ?thesis
    proof (cases a2)
      case Nil
      then show ?thesis using that c1 c2 by simp
    next
      case c3: (Cons x3 a3)
      show ?thesis
      proof (cases a3)
        case Nil
        then show ?thesis using that c1 c2 c3 by simp
      next
        case (Cons x4 a4)
        then show ?thesis using that c1 c2 c3 by simp
      qed
    qed
  qed
qed

lemma sws_break:
  assumes "canonicalize x \<notin> {83, 82, 67, 61}"
  shows "startsWithSrc (a @ x # b) = startsWithSrc a"
  using assms by (cases a rule: list_cases4) (auto simp: startsWithSrc_def canon_src)

lemma wsb_break:
  assumes "canonicalize x \<notin> {83, 82, 67, 61}"
  shows "whitespaceBeforeSrc (a @ x # b) = (whitespaceBeforeSrc a \<or> whitespaceBeforeSrc (x # b))"
proof (induction a)
  case Nil
  then show ?case by simp
next
  case (Cons w a)
  then show ?case using sws_break [OF assms, of a b] by auto
qed

lemma sws_hd: "s \<noteq> [] \<Longrightarrow> canonicalize (hd s) \<noteq> 83 \<Longrightarrow> \<not> startsWithSrc (s @ r)"
  by (cases s) (auto simp: startsWithSrc_def canon_src)

lemma lit_src_dead:
  assumes "\<not> startsWithSrc t"
  shows "ms (lit_i ''src='') (j, t, c) = []"
proof (rule ccontr)
  assume "ms (lit_i ''src='') (j, t, c) \<noteq> []"
  then obtain x where "x \<in> set (ms (lit_i ''src='') (j, t, c))" by (cases "ms (lit_i ''src='') (j, t, c)") auto
  then have x: "x \<in> set (ms (Seq (chr_i CHR ''s'') (Seq (chr_i CHR ''r'') (Seq (chr_i CHR ''c'') (chr_i CHR ''='')))) (j, t, c))"
    by (simp add: lit_i_def)
  from Seq_mem [OF x] obtain j1 t1 c1 where
    y1: "(j1, t1, c1) \<in> set (ms (chr_i CHR ''s'') (j, t, c))"
    and x1: "x \<in> set (ms (Seq (chr_i CHR ''r'') (Seq (chr_i CHR ''c'') (chr_i CHR ''=''))) (j1, t1, c1))"
    by (metis prod_cases3)
  from Seq_mem [OF x1] obtain j2 t2 c2 where
    y2: "(j2, t2, c2) \<in> set (ms (chr_i CHR ''r'') (j1, t1, c1))"
    and x2: "x \<in> set (ms (Seq (chr_i CHR ''c'') (chr_i CHR ''='')) (j2, t2, c2))"
    by (metis prod_cases3)
  from Seq_mem [OF x2] obtain j3 t3 c3 where
    y3: "(j3, t3, c3) \<in> set (ms (chr_i CHR ''c'') (j2, t2, c2))"
    and x3: "x \<in> set (ms (chr_i CHR ''='') (j3, t3, c3))"
    by (metis prod_cases3)
  obtain j4 t4 c4 where x4: "x = (j4, t4, c4)" by (cases x)
  from Cls_mem [OF y1 [unfolded chr_i_def]] have a: "t \<noteq> []" "canonicalize (hd t) = canonicalize CHR ''s''" "t1 = tl t" by simp_all
  from Cls_mem [OF y2 [unfolded chr_i_def]] have b: "t1 \<noteq> []" "canonicalize (hd t1) = canonicalize CHR ''r''" "t2 = tl t1" by simp_all
  from Cls_mem [OF y3 [unfolded chr_i_def]] have c: "t2 \<noteq> []" "canonicalize (hd t2) = canonicalize CHR ''c''" "t3 = tl t2" by simp_all
  from Cls_mem [OF x3 [unfolded chr_i_def x4]] have d: "t3 \<noteq> []" "canonicalize (hd t3) = canonicalize CHR ''=''" by simp_all
  from a b c d have "startsWithSrc t"
    by (cases t rule: list_cases4) (auto simp: startsWithSrc_def)
  with assms show False by simp
qed

lemma prefix_group_dead:
  assumes "\<not> whitespaceBeforeSrc s"
  shows "\<forall>x\<in>set (ms (Seq (LazyStar notGt) (Plus isWhiteSpace)) (i, s, c)).
           ms (Seq (lit_i ''src='') K) x = []"
proof
  fix x assume x: "x \<in> set (ms (Seq (LazyStar notGt) (Plus isWhiteSpace)) (i, s, c))"
  obtain j t c' where xs: "x = (j, t, c')" by (cases x)
  from Seq_mem [OF x] obtain j1 t1 c1 where
    y1: "(j1, t1, c1) \<in> set (ms (LazyStar notGt) (i, s, c))"
    and x1: "(j, t, c') \<in> set (ms (Plus isWhiteSpace) (j1, t1, c1))"
    unfolding xs by (metis prod_cases3)
  from y1 have "(j1, t1, c1) \<in> set (star_lazy notGt i s c)" by simp
  from star_lazy_mem [OF this] obtain p1 where p1: "s = p1 @ t1" by blast
  from Plus_mem [OF x1] obtain p2 where p2: "p2 \<noteq> []" "t1 = p2 @ t" "\<forall>x\<in>set p2. isWhiteSpace x" by blast
  have "s = (p1 @ butlast p2) @ last p2 # t" using p1 p2 by simp
  moreover have "isWhiteSpace (last p2)" using p2 by simp
  ultimately have "startsWithSrc t \<Longrightarrow> whitespaceBeforeSrc s" using wsb_intro by metis
  with assms have "\<not> startsWithSrc t" by blast
  from lit_src_dead [OF this] show "ms (Seq (lit_i ''src='') K) x = []" by (simp add: xs)
qed

lemma sws_replaceAll:
  assumes "r \<noteq> []" and "canonicalize (hd r) \<notin> {83, 82, 67, 61}"
  shows "startsWithSrc (replaceAll c r s) \<Longrightarrow> startsWithSrc s"
proof -
  obtain e r' where r: "r = e # r'" using assms(1) by (cases r) auto
  with assms(2) have e: "canonicalize e \<notin> {83, 82, 67, 61}" by simp
  show "startsWithSrc (replaceAll c r s) \<Longrightarrow> startsWithSrc s"
    using e unfolding r
    by (cases s rule: list_cases4) (auto simp: startsWithSrc_def canon_src replaceAll_def split: if_splits)
qed

lemma wsb_replaceAll:
  assumes "r \<noteq> []" and "canonicalize (hd r) \<notin> {83, 82, 67, 61}" and "\<forall>y\<in>set r. \<not> isWhiteSpace y"
  shows "whitespaceBeforeSrc (replaceAll c r s) \<Longrightarrow> whitespaceBeforeSrc s"
proof (induction s)
  case Nil
  then show ?case by (simp add: replaceAll_def)
next
  case (Cons x s)
  have split: "replaceAll c r (x # s) = (if x = c then r else [x]) @ replaceAll c r s"
    by (simp add: replaceAll_def)
  show ?case
  proof (cases "x = c")
    case True
    with Cons.prems split have "whitespaceBeforeSrc (replaceAll c r s)"
      using wsb_no_ws [OF assms(3)] by simp
    with Cons.IH show ?thesis by simp
  next
    case False
    with Cons.prems split have "(isWhiteSpace x \<and> startsWithSrc (replaceAll c r s))
        \<or> whitespaceBeforeSrc (replaceAll c r s)" by simp
    then show ?thesis using Cons.IH sws_replaceAll [OF assms(1,2)] by auto
  qed
qed

lemma wsb_escapeHtml:
  assumes "whitespaceBeforeSrc (escapeHtml a)"
  shows "whitespaceBeforeSrc a"
proof -
  have e: "whitespaceBeforeSrc (replaceAll c r s) \<Longrightarrow> whitespaceBeforeSrc s"
    if "r \<in> {''&#039;'', ''&quot;'', ''&gt;'', ''&lt;'', ''&amp;''}" for c r s
  proof (rule wsb_replaceAll)
    show "r \<noteq> []" using that by auto
    show "canonicalize (hd r) \<notin> {83, 82, 67, 61}" using that by (auto simp: canonicalize_def)
    show "\<forall>y\<in>set r. \<not> isWhiteSpace y" using that by (auto simp: isWhiteSpace_def)
  qed
  from assms show ?thesis unfolding escapeHtml_def
    by (auto dest!: e [rotated])
qed

lemma digit_canon: "isDigit x \<Longrightarrow> canonicalize x \<notin> {87, 72, 90, 83, 82, 67, 61, 80} \<and> \<not> isWhiteSpace x \<and> notQuote x"
  by (auto simp: isDigit_def canonicalize_def isWhiteSpace_def notQuote_def)

lemma showNat_hd: "isDigit (hd (showNat n))"
  using showNat_digits [of n] by (cases "showNat n") auto

lemma widthRegex_unfold:
  "widthRegex = Seq (lit_i ''width:'') (Seq (Star isWhiteSpace) (Seq (Cap 1 (Plus isDigit)) (lit_i ''px'')))"
  by (simp add: widthRegex_def)

lemma heightRegex_unfold:
  "heightRegex = Seq (lit_i ''height:'') (Seq (Star isWhiteSpace) (Seq (Cap 1 (Plus isDigit)) (lit_i ''px'')))"
  by (simp add: heightRegex_def)

lemma zoomRegex_unfold:
  "zoomRegex = Seq (lit_i ''zoom:'') (Seq (Star isWhiteSpace) (Seq (Cap 1 (Plus isDigit)) (Opt (Cls (\<lambda>x. x = CHR ''%'')))))"
  by (simp add: zoomRegex_def chr_def)

lemma width_dead: "canonicalize x \<noteq> 87 \<Longrightarrow> ms widthRegex (i, x # s, c) = []"
  by (simp add: widthRegex_def lit_i_def chr_i_def canonicalize_def [of "CHR ''w''"])

lemma height_dead: "canonicalize x \<noteq> 72 \<Longrightarrow> ms heightRegex (i, x # s, c) = []"
  by (simp add: heightRegex_def lit_i_def chr_i_def canonicalize_def [of "CHR ''h''"])

lemma zoom_dead: "canonicalize x \<noteq> 90 \<Longrightarrow> ms zoomRegex (i, x # s, c) = []"
  by (simp add: zoomRegex_def lit_i_def chr_i_def canonicalize_def [of "CHR ''z''"])

lemma style_dead_nil:
  "ms widthRegex (i, [], c) = []" "ms heightRegex (i, [], c) = []" "ms zoomRegex (i, [], c) = []"
  by (simp_all add: widthRegex_def heightRegex_def zoomRegex_def lit_i_def chr_i_def)

lemma height_dead_h: "ms heightRegex (i, CHR ''h'' # CHR '':'' # s, c) = []"
  by (simp add: heightRegex_def lit_i_def chr_i_def canonicalize_def)

lemma leads_dimension_block:
  "leads (Seq (lit_i key) (Seq (Star isWhiteSpace) (Seq (Cap 1 (Plus isDigit)) (lit_i ''px''))))
           (i, key @ '' '' @ showNat n @ ''px'' @ r, Map.empty)
           (i + length (key @ '' '' @ showNat n @ ''px''), r, [1 \<mapsto> showNat n])"
proof -
  let ?d = "showNat n"
  have d: "?d \<noteq> []" "\<forall>x\<in>set ?d. isDigit x" using showNat_digits by simp_all
  have a: "leads (lit_i key) (i, key @ '' '' @ ?d @ ''px'' @ r, Map.empty)
             (i + length key, '' '' @ ?d @ ''px'' @ r, Map.empty)"
    by (rule leads_lit_i_same)
  have "\<not> isWhiteSpace (hd (?d @ ''px'' @ r))" using d showNat_hd [of n] digit_canon by simp
  then have b: "leads (Star isWhiteSpace) (i + length key, '' '' @ (?d @ ''px'' @ r), Map.empty)
             (i + length key + length '' '', ?d @ ''px'' @ r, Map.empty)"
    by (intro leads_Star) (simp_all add: isWhiteSpace_def)
  have "leads (Plus isDigit) (i + length key + length '' '', ?d @ (''px'' @ r), Map.empty)
             (i + length key + length '' '' + length ?d, ''px'' @ r, Map.empty)"
    using d by (intro leads_Plus) (simp_all add: isDigit_def)
  from leads_Cap [OF this, of 1]
  have c: "leads (Cap 1 (Plus isDigit)) (i + length key + length '' '', ?d @ ''px'' @ r, Map.empty)
             (i + length key + length '' '' + length ?d, ''px'' @ r, [1 \<mapsto> ?d])"
    by simp
  have e: "leads (lit_i ''px'') (i + length key + length '' '' + length ?d, ''px'' @ r, [1 \<mapsto> ?d])
             (i + length key + length '' '' + length ?d + length ''px'', r, [1 \<mapsto> ?d])"
    by (rule leads_lit_i_same)
  have "leads (Seq (lit_i key) (Seq (Star isWhiteSpace) (Seq (Cap 1 (Plus isDigit)) (lit_i ''px''))))
           (i, key @ '' '' @ ?d @ ''px'' @ r, Map.empty)
           (i + length key + length '' '' + length ?d + length ''px'', r, [1 \<mapsto> ?d])"
    using b c by (intro leads_Seq [OF a] leads_Seq [OF _ e] leads_Seq) simp_all
  then show ?thesis by (simp add: add.assoc)
qed

lemma leads_zoom_block:
  "leads zoomRegex (i, ''zoom: '' @ showNat n @ ''%;'' @ r, Map.empty)
           (i + length (''zoom: '' @ showNat n @ ''%''), '';'' @ r, [1 \<mapsto> showNat n])"
proof -
  let ?d = "showNat n"
  have d: "?d \<noteq> []" "\<forall>x\<in>set ?d. isDigit x" using showNat_digits by simp_all
  have a: "leads (lit_i ''zoom:'') (i, ''zoom:'' @ '' '' @ ?d @ ''%;'' @ r, Map.empty)
             (i + length ''zoom:'', '' '' @ ?d @ ''%;'' @ r, Map.empty)"
    by (rule leads_lit_i_same)
  have "\<not> isWhiteSpace (hd (?d @ ''%;'' @ r))" using d showNat_hd [of n] digit_canon by simp
  then have b: "leads (Star isWhiteSpace) (i + length ''zoom:'', '' '' @ (?d @ ''%;'' @ r), Map.empty)
             (i + length ''zoom:'' + length '' '', ?d @ ''%;'' @ r, Map.empty)"
    by (intro leads_Star) (simp_all add: isWhiteSpace_def)
  have "leads (Plus isDigit) (i + length ''zoom:'' + length '' '', ?d @ (''%;'' @ r), Map.empty)
             (i + length ''zoom:'' + length '' '' + length ?d, ''%;'' @ r, Map.empty)"
    using d by (intro leads_Plus) (simp_all add: isDigit_def)
  from leads_Cap [OF this, of 1]
  have c: "leads (Cap 1 (Plus isDigit)) (i + length ''zoom:'' + length '' '', ?d @ ''%;'' @ r, Map.empty)
             (i + length ''zoom:'' + length '' '' + length ?d, ''%;'' @ r, [1 \<mapsto> ?d])"
    by simp
  have "leads (Cls (\<lambda>x. x = CHR ''%'')) (i + length ''zoom:'' + length '' '' + length ?d, CHR ''%'' # '';'' @ r, [1 \<mapsto> ?d])
             (Suc (i + length ''zoom:'' + length '' '' + length ?d), '';'' @ r, [1 \<mapsto> ?d])"
    by (intro leads_Cls) simp
  then have e: "leads (Opt (Cls (\<lambda>x. x = CHR ''%''))) (i + length ''zoom:'' + length '' '' + length ?d, ''%;'' @ r, [1 \<mapsto> ?d])
             (Suc (i + length ''zoom:'' + length '' '' + length ?d), '';'' @ r, [1 \<mapsto> ?d])"
    by (intro leads_Opt) simp_all
  have "leads zoomRegex (i, ''zoom:'' @ '' '' @ ?d @ ''%;'' @ r, Map.empty)
           (Suc (i + length ''zoom:'' + length '' '' + length ?d), '';'' @ r, [1 \<mapsto> ?d])"
    unfolding zoomRegex_unfold using b c by (intro leads_Seq [OF a] leads_Seq [OF _ e] leads_Seq) simp_all
  then show ?thesis by simp
qed

lemma capturedInt_found:
  assumes "re_search r 0 (pre @ s) = re_search r (length pre) s"
    and "leads r (length pre, s, Map.empty) (j, t, [1 \<mapsto> showNat n])"
  shows "capturedInt r (pre @ s) = Some n"
proof -
  from re_search_first [OF assms(2)] assms(1)
  have "re_match r (pre @ s) = Some \<lparr>index = length pre, matched = take (j - length pre) s, groups = [1 \<mapsto> showNat n]\<rparr>"
    by (simp add: re_match_def)
  then show ?thesis using showNat_digits [of n] by (simp add: capturedInt_def truthy_def parseInt_showNat)
qed

lemma capturedInt_none: "re_search r 0 s = None \<Longrightarrow> capturedInt r s = None"
  by (simp add: capturedInt_def re_match_def)

lemma block_chars:
  "\<forall>x\<in>set (''width: '' @ showNat n @ ''px; ''). canonicalize x \<noteq> 90 \<and> notQuote x"
  "\<forall>x\<in>set (''height: '' @ showNat n @ ''px; ''). canonicalize x \<noteq> 90 \<and> canonicalize x \<noteq> 87 \<and> notQuote x"
  "\<forall>x\<in>set (''zoom: '' @ showNat n @ ''%;''). canonicalize x \<noteq> 87 \<and> canonicalize x \<noteq> 72 \<and> notQuote x"
  using showNat_digits [of n] digit_canon by (auto simp: canonicalize_def notQuote_def)

lemma width_found: "capturedInt widthRegex (''width: '' @ showNat n @ ''px; '' @ r) = Some n"
proof -
  have "leads widthRegex (length ([]::string), ''width:'' @ '' '' @ showNat n @ ''px'' @ (''; '' @ r), Map.empty)
          (length ([]::string) + length (''width:'' @ '' '' @ showNat n @ ''px''), ''; '' @ r, [1 \<mapsto> showNat n])"
    unfolding widthRegex_unfold by (rule leads_dimension_block)
  from capturedInt_found [OF _ this] show ?thesis by simp
qed

lemma height_found: "capturedInt heightRegex (''height: '' @ showNat n @ ''px; '' @ r) = Some n"
proof -
  have "leads heightRegex (length ([]::string), ''height:'' @ '' '' @ showNat n @ ''px'' @ (''; '' @ r), Map.empty)
          (length ([]::string) + length (''height:'' @ '' '' @ showNat n @ ''px''), ''; '' @ r, [1 \<mapsto> showNat n])"
    unfolding heightRegex_unfold by (rule leads_dimension_block)
  from capturedInt_found [OF _ this] show ?thesis by simp
qed

lemma height_skip_width:
  "re_search heightRegex i (''width: '' @ showNat n @ ''px; '' @ s)
     = re_search heightRegex (i + length (''width: '' @ showNat n @ ''px; '')) s"
proof -
  let ?u = "'': '' @ showNat n @ ''px; ''"
  have u: "\<And>i x s. x \<in> set ?u \<Longrightarrow> ms heightRegex (i, x # s, Map.empty) = []"
    using showNat_digits [of n] digit_canon by (intro height_dead) (auto simp: canonicalize_def)
  have "re_search heightRegex i (''widt'' @ (CHR ''h'' # ?u @ s))
          = re_search heightRegex (i + length ''widt'') (CHR ''h'' # ?u @ s)"
    by (intro re_search_skip height_dead) (auto simp: canonicalize_def)
  also have "\<dots> = re_search heightRegex (Suc (i + length ''widt'')) (?u @ s)"
    by (simp add: height_dead_h)
  also have "\<dots> = re_search heightRegex (Suc (i + length ''widt'') + length ?u) s"
    using u by (rule re_search_skip)
  finally show ?thesis by (simp add: add.assoc)
qed

lemma height_found_after_width:
  "capturedInt heightRegex ((''width: '' @ showNat n @ ''px; '') @ ''height: '' @ showNat m @ ''px; '' @ r) = Some m"
proof -
  let ?pre = "''width: '' @ showNat n @ ''px; ''"
  have "leads heightRegex (length ?pre, ''height:'' @ '' '' @ showNat m @ ''px'' @ (''; '' @ r), Map.empty)
          (length ?pre + length (''height:'' @ '' '' @ showNat m @ ''px''), ''; '' @ r, [1 \<mapsto> showNat m])"
    unfolding heightRegex_unfold by (rule leads_dimension_block)
  then have l: "leads heightRegex (length ?pre, ''height: '' @ showNat m @ ''px; '' @ r, Map.empty)
          (length ?pre + length (''height:'' @ '' '' @ showNat m @ ''px''), ''; '' @ r, [1 \<mapsto> showNat m])"
    by simp
  have "re_search heightRegex 0 (?pre @ ''height: '' @ showNat m @ ''px; '' @ r)
         = re_search heightRegex (length ?pre) (''height: '' @ showNat m @ ''px; '' @ r)"
    using height_skip_width [of 0 n] by simp
  from capturedInt_found [OF this l] show ?thesis .
qed

lemma width_absent: "\<forall>x\<in>set s. canonicalize x \<noteq> 87 \<Longrightarrow> capturedInt widthRegex s = None"
  by (intro capturedInt_none re_search_none width_dead style_dead_nil) simp

lemma height_absent: "\<forall>x\<in>set s. canonicalize x \<noteq> 72 \<Longrightarrow> capturedInt heightRegex s = None"
  by (intro capturedInt_none re_search_none height_dead style_dead_nil) simp

lemma height_absent_after_width:
  assumes "\<forall>x\<in>set s. canonicalize x \<noteq> 72"
  shows "capturedInt heightRegex (''width: '' @ showNat n @ ''px; '' @ s) = None"
proof -
  have "re_search heightRegex (0 + length (''width: '' @ showNat n @ ''px; '')) s = None"
    using assms by (intro re_search_none height_dead style_dead_nil) simp
  then show ?thesis using height_skip_width [of 0 n s] by (intro capturedInt_none) simp
qed

lemma zoom_found:
  assumes "\<forall>x\<in>set pre. canonicalize x \<noteq> 90"
  shows "capturedInt zoomRegex (pre @ ''zoom: '' @ showNat k @ ''%;'') = Some k"
proof -
  have s: "re_search zoomRegex 0 (pre @ ''zoom: '' @ showNat k @ ''%;'')
         = re_search zoomRegex (0 + length pre) (''zoom: '' @ showNat k @ ''%;'')"
    using assms by (intro re_search_skip zoom_dead) simp
  have "leads zoomRegex (length pre, ''zoom: '' @ showNat k @ ''%;'' @ [], Map.empty)
           (length pre + length (''zoom: '' @ showNat k @ ''%''), '';'' @ [], [1 \<mapsto> showNat k])"
    by (rule leads_zoom_block)
  then have "leads zoomRegex (length pre, ''zoom: '' @ showNat k @ ''%;'', Map.empty)
           (length pre + length (''zoom: '' @ showNat k @ ''%''), '';'', [1 \<mapsto> showNat k])"
    by simp
  from capturedInt_found [OF _ this] s show ?thesis by simp
qed

lemma style_reads_back:
  assumes "w \<noteq> Some 0" and "h \<noteq> Some 0" and "0 \<le> z"
  shows "capturedInt widthRegex (styleString w h z) = w
       \<and> capturedInt heightRegex (styleString w h z) = h
       \<and> capturedInt zoomRegex (styleString w h z) = Some (nat z)"
proof -
  let ?Z = "''zoom: '' @ showNat (nat z) @ ''%;''"
  have zs: "styleString w h z =
      (case w of None \<Rightarrow> [] | Some n \<Rightarrow> ''width: '' @ showNat n @ ''px; '')
      @ (case h of None \<Rightarrow> [] | Some n \<Rightarrow> ''height: '' @ showNat n @ ''px; '') @ ?Z"
    using assms by (auto simp: styleString_def showInt_def split: option.splits)
  show ?thesis
  proof (cases w)
    case wN: None
    show ?thesis
    proof (cases h)
      case None
      with wN zs have s: "styleString w h z = [] @ ?Z" by simp
      have "capturedInt zoomRegex ([] @ ?Z) = Some (nat z)" by (rule zoom_found) simp
      moreover have "capturedInt widthRegex ([] @ ?Z) = None" "capturedInt heightRegex ([] @ ?Z) = None"
        using block_chars(3) [of "nat z"] by (auto intro!: width_absent height_absent)
      ultimately show ?thesis using wN None s by simp
    next
      case (Some m)
      let ?H = "''height: '' @ showNat m @ ''px; ''"
      from Some wN zs have s: "styleString w h z = ?H @ ?Z" by simp
      have "capturedInt zoomRegex (?H @ ?Z) = Some (nat z)"
        using block_chars(2) [of m] by (intro zoom_found) blast
      moreover have "capturedInt widthRegex (?H @ ?Z) = None"
        using block_chars(2) [of m] block_chars(3) [of "nat z"] by (intro width_absent) auto
      moreover have "capturedInt heightRegex (?H @ ?Z) = Some m"
        using height_found [of m ?Z] by simp
      ultimately show ?thesis using wN Some s by simp
    qed
  next
    case wS: (Some n)
    let ?W = "''width: '' @ showNat n @ ''px; ''"
    show ?thesis
    proof (cases h)
      case None
      with wS zs have s: "styleString w h z = ?W @ ?Z" by simp
      have "capturedInt zoomRegex (?W @ ?Z) = Some (nat z)"
        using block_chars(1) [of n] by (intro zoom_found) blast
      moreover have "capturedInt widthRegex (?W @ ?Z) = Some n"
        using width_found [of n ?Z] by simp
      moreover have "capturedInt heightRegex (?W @ ?Z) = None"
        using height_absent_after_width [of ?Z n] block_chars(3) [of "nat z"] by simp
      ultimately show ?thesis using wS None s by simp
    next
      case (Some m)
      let ?H = "''height: '' @ showNat m @ ''px; ''"
      from Some wS zs have s: "styleString w h z = (?W @ ?H) @ ?Z" by simp
      have "capturedInt zoomRegex ((?W @ ?H) @ ?Z) = Some (nat z)"
        using block_chars(1) [of n] block_chars(2) [of m] by (intro zoom_found) auto
      moreover have "capturedInt widthRegex ((?W @ ?H) @ ?Z) = Some n"
        using width_found [of n "?H @ ?Z"] by simp
      moreover have "capturedInt heightRegex ((?W @ ?H) @ ?Z) = Some m"
        using height_found_after_width [of n m ?Z] by simp
      ultimately show ?thesis using wS Some s by simp
    qed
  qed
qed

lemma wsb_dim_block:
  assumes "\<forall>x\<in>set key. \<not> isWhiteSpace x"
  shows "whitespaceBeforeSrc (key @ '' '' @ showNat n @ ''px; '' @ r) = (startsWithSrc r \<or> whitespaceBeforeSrc r)"
proof -
  have d: "\<forall>x\<in>set (showNat n). \<not> isWhiteSpace x" "showNat n \<noteq> []" "canonicalize (hd (showNat n)) \<noteq> 83"
    using showNat_digits [of n] showNat_hd [of n] digit_canon by auto
  have "whitespaceBeforeSrc (key @ '' '' @ showNat n @ ''px; '' @ r)
      = whitespaceBeforeSrc ('' '' @ showNat n @ ''px; '' @ r)"
    using assms by (rule wsb_no_ws)
  also have "\<dots> = whitespaceBeforeSrc (showNat n @ ''px; '' @ r)"
    using sws_hd [OF d(2,3)] by simp
  also have "\<dots> = whitespaceBeforeSrc (''px; '' @ r)"
    using d(1) by (rule wsb_no_ws)
  also have "\<dots> = (startsWithSrc r \<or> whitespaceBeforeSrc r)"
    by (simp add: isWhiteSpace_def)
  finally show ?thesis .
qed

lemma wsb_zoom_block:
  "\<not> whitespaceBeforeSrc (''zoom: '' @ showNat n @ ''%;'' @ [CHR 0x22, CHR ''>''])"
proof -
  have d: "\<forall>x\<in>set (showNat n). \<not> isWhiteSpace x" "showNat n \<noteq> []" "canonicalize (hd (showNat n)) \<noteq> 83"
    using showNat_digits [of n] showNat_hd [of n] digit_canon by auto
  have "whitespaceBeforeSrc (''zoom:'' @ '' '' @ showNat n @ ''%;'' @ [CHR 0x22, CHR ''>''])
      = whitespaceBeforeSrc ('' '' @ showNat n @ ''%;'' @ [CHR 0x22, CHR ''>''])"
    by (rule wsb_no_ws) (simp add: isWhiteSpace_def)
  also have "\<dots> = whitespaceBeforeSrc (showNat n @ ''%;'' @ [CHR 0x22, CHR ''>''])"
    using sws_hd [OF d(2,3)] by simp
  also have "\<dots> = whitespaceBeforeSrc (''%;'' @ [CHR 0x22, CHR ''>''])"
    using d(1) by (rule wsb_no_ws)
  also have "\<dots> = False"
    by (simp add: isWhiteSpace_def)
  finally show ?thesis by simp
qed

lemma style_shape:
  assumes "0 \<le> z"
  shows "styleString w h z \<noteq> [] \<and> (\<forall>x\<in>set (styleString w h z). notQuote x)
       \<and> trim (styleString w h z) = styleString w h z
       \<and> \<not> whitespaceBeforeSrc (styleString w h z @ [CHR 0x22, CHR ''>''])"
proof -
  let ?Z = "''zoom: '' @ showNat (nat z) @ ''%;''"
  let ?W = "(case w of None \<Rightarrow> [] | Some n \<Rightarrow> if n = 0 then [] else ''width: '' @ showNat n @ ''px; '')"
  let ?H = "(case h of None \<Rightarrow> [] | Some n \<Rightarrow> if n = 0 then [] else ''height: '' @ showNat n @ ''px; '')"
  have zs: "styleString w h z = ?W @ ?H @ ?Z"
    using assms by (simp add: styleString_def showInt_def)
  have q: "\<forall>x\<in>set (styleString w h z). notQuote x"
    unfolding zs using block_chars by (auto split: option.splits)
  have ne: "styleString w h z \<noteq> []" unfolding zs by simp
  have "\<not> isWhiteSpace (hd (styleString w h z))"
    unfolding zs by (auto simp: isWhiteSpace_def split: option.splits)
  moreover have "\<not> isWhiteSpace (last (styleString w h z))"
    unfolding zs by (simp add: isWhiteSpace_def)
  ultimately have t: "trim (styleString w h z) = styleString w h z" using ne by (intro trim_id)
  have kw: "\<forall>x\<in>set ''width:''. \<not> isWhiteSpace x" and kh: "\<forall>x\<in>set ''height:''. \<not> isWhiteSpace x"
    by (simp_all add: isWhiteSpace_def)
  have z0: "\<not> whitespaceBeforeSrc (?Z @ [CHR 0x22, CHR ''>''])"
    using wsb_zoom_block [of "nat z"] by simp
  have sz: "\<not> startsWithSrc (?Z @ [CHR 0x22, CHR ''>''])"
    by (simp add: startsWithSrc_def canonicalize_def)
  have h0: "\<not> whitespaceBeforeSrc (?H @ ?Z @ [CHR 0x22, CHR ''>''])"
    using z0 sz wsb_dim_block [OF kh, of _ "?Z @ [CHR 0x22, CHR ''>'']"]
    by (auto split: option.splits)
  have sh: "\<not> startsWithSrc (?H @ ?Z @ [CHR 0x22, CHR ''>''])"
    by (auto simp: startsWithSrc_def canonicalize_def split: option.splits)
  have "\<not> whitespaceBeforeSrc (?W @ ?H @ ?Z @ [CHR 0x22, CHR ''>''])"
    using h0 sh wsb_dim_block [OF kw, of _ "?H @ ?Z @ [CHR 0x22, CHR ''>'']"]
    by (auto split: option.splits)
  then have "\<not> whitespaceBeforeSrc (styleString w h z @ [CHR 0x22, CHR ''>''])"
    unfolding zs by simp
  with q ne t show ?thesis by blast
qed

lemma leads_quoted_plus:
  assumes "p \<noteq> []" and "\<forall>x\<in>set p. notQuote x"
  shows "leads (Seq (Cls isQuote) (Seq (Cap n (Plus notQuote)) (Cls isQuote)))
           (i, CHR 0x22 # p @ CHR 0x22 # r, c)
           (i + length (CHR 0x22 # p @ [CHR 0x22]), r, c(n \<mapsto> p))"
proof -
  have a: "leads (Cls isQuote) (i, CHR 0x22 # p @ CHR 0x22 # r, c) (Suc i, p @ CHR 0x22 # r, c)"
    by (intro leads_Cls) (simp add: isQuote_def)
  have "leads (Plus notQuote) (Suc i, p @ CHR 0x22 # r, c) (Suc i + length p, CHR 0x22 # r, c)"
    using assms by (intro leads_Plus) (simp_all add: notQuote_def)
  from leads_Cap [OF this, of n]
  have b: "leads (Cap n (Plus notQuote)) (Suc i, p @ CHR 0x22 # r, c) (Suc i + length p, CHR 0x22 # r, c(n \<mapsto> p))"
    by simp
  have d: "leads (Cls isQuote) (Suc i + length p, CHR 0x22 # r, c(n \<mapsto> p)) (Suc (Suc i + length p), r, c(n \<mapsto> p))"
    by (intro leads_Cls) (simp add: isQuote_def)
  have "leads (Seq (Cls isQuote) (Seq (Cap n (Plus notQuote)) (Cls isQuote)))
           (i, CHR 0x22 # p @ CHR 0x22 # r, c) (Suc (Suc i + length p), r, c(n \<mapsto> p))"
    by (intro leads_Seq [OF a] leads_Seq [OF b] d)
  then show ?thesis by simp
qed

lemma leads_quoted_star:
  assumes "\<forall>x\<in>set p. notQuote x"
  shows "leads (Seq (Cls isQuote) (Seq (Cap n (Star notQuote)) (Cls isQuote)))
           (i, CHR 0x22 # p @ CHR 0x22 # r, c)
           (i + length (CHR 0x22 # p @ [CHR 0x22]), r, c(n \<mapsto> p))"
proof -
  have a: "leads (Cls isQuote) (i, CHR 0x22 # p @ CHR 0x22 # r, c) (Suc i, p @ CHR 0x22 # r, c)"
    by (intro leads_Cls) (simp add: isQuote_def)
  have "leads (Star notQuote) (Suc i, p @ CHR 0x22 # r, c) (Suc i + length p, CHR 0x22 # r, c)"
    using assms by (intro leads_Star) (simp_all add: notQuote_def)
  from leads_Cap [OF this, of n]
  have b: "leads (Cap n (Star notQuote)) (Suc i, p @ CHR 0x22 # r, c) (Suc i + length p, CHR 0x22 # r, c(n \<mapsto> p))"
    by simp
  have d: "leads (Cls isQuote) (Suc i + length p, CHR 0x22 # r, c(n \<mapsto> p)) (Suc (Suc i + length p), r, c(n \<mapsto> p))"
    by (intro leads_Cls) (simp add: isQuote_def)
  have "leads (Seq (Cls isQuote) (Seq (Cap n (Star notQuote)) (Cls isQuote)))
           (i, CHR 0x22 # p @ CHR 0x22 # r, c) (Suc (Suc i + length p), r, c(n \<mapsto> p))"
    by (intro leads_Seq [OF a] leads_Seq [OF b] d)
  then show ?thesis by simp
qed

lemma leads_attribute:
  assumes "key \<noteq> []" and "\<not> isWhiteSpace (hd key)"
    and "leads V (i + length ('' '' @ key), rest, c) y"
  shows "leads (Seq (Plus isWhiteSpace) (Seq (LazyStar notGt) (Seq (Star isWhiteSpace) (Seq (lit_i key) V))))
           (i, '' '' @ key @ rest, c) y"
proof -
  have a: "leads (Plus isWhiteSpace) (i, '' '' @ (key @ rest), c) (i + length '' '', key @ rest, c)"
    using assms(1,2) by (intro leads_Plus) (simp_all add: isWhiteSpace_def)
  have b: "leads (LazyStar notGt) (i + length '' '', key @ rest, c) (i + length '' '', key @ rest, c)"
    by (rule leads_LazyStar)
  have "leads (Star isWhiteSpace) (i + length '' '', [] @ (key @ rest), c)
          (i + length '' '' + length ([]::string), key @ rest, c)"
    using assms(1,2) by (intro leads_Star) simp_all
  then have d: "leads (Star isWhiteSpace) (i + length '' '', key @ rest, c) (i + length '' '', key @ rest, c)"
    by simp
  have e: "leads (lit_i key) (i + length '' '', key @ rest, c) (i + length '' '' + length key, rest, c)"
    by (rule leads_lit_i_same)
  have f: "leads V (i + length '' '' + length key, rest, c) y" using assms(3) by (simp add: add.assoc)
  show ?thesis
    using a by (intro leads_Seq [OF _ leads_Seq [OF b leads_Seq [OF d leads_Seq [OF e f]]]]) simp
qed

lemma htmlImgRegex_unfold:
  "htmlImgRegex = Cap 1
     (Seq (lit_i ''<img'')
     (Seq (Plus isWhiteSpace)
     (Seq (Opt (Seq (LazyStar notGt) (Plus isWhiteSpace)))
     (Seq (lit_i ''src='')
     (Seq (Alt (Seq (Cls isQuote) (Seq (Cap 2 (Plus notQuote)) (Cls isQuote))) (Cap 3 (Plus notGtWs)))
     (Seq (Opt (Seq (Plus isWhiteSpace) (Seq (LazyStar notGt) (Seq (Star isWhiteSpace)
                 (Seq (lit_i ''alt='')
                      (Alt (Seq (Cls isQuote) (Seq (Cap 4 (Star notQuote)) (Cls isQuote)))
                           (Cap 5 (Star notGtWs))))))))
     (Seq (Opt (Seq (Plus isWhiteSpace) (Seq (LazyStar notGt) (Seq (Star isWhiteSpace)
                 (Seq (lit_i ''style='')
                      (Alt (Seq (Cls isQuote) (Seq (Cap 6 (Plus notQuote)) (Cls isQuote)))
                           (Cap 7 (Plus notGtWs))))))))
     (Seq (LazyStar notGt) (Cls (\<lambda>x. x = CHR ''>''))))))))))"
  by (simp add: htmlImgRegex_def chr_def)

lemma safeAltText_shape:
  assumes "case a of None \<Rightarrow> True | Some t \<Rightarrow> \<not> whitespaceBeforeSrc t"
  shows "(\<forall>x\<in>set (safeAltText a). notQuote x) \<and> \<not> whitespaceBeforeSrc (safeAltText a)"
proof -
  have "\<forall>x\<in>set (escapeHtml t). notQuote x" for t
    using escapeHtml_no_dquote [of t] escapeHtml_no_squote [of t] by (auto simp: notQuote_def)
  moreover have "\<not> whitespaceBeforeSrc (escapeHtml t)" if "a = Some t" for t
    using assms that wsb_escapeHtml [of t] by auto
  ultimately show ?thesis
    by (auto simp: safeAltText_def truthy_def split: option.splits if_splits)
qed

lemma tag_has_no_early_src:
  assumes "\<not> whitespaceBeforeSrc p" and "\<not> whitespaceBeforeSrc ea"
    and "\<not> whitespaceBeforeSrc (sty @ [CHR 0x22, CHR ''>''])"
  shows "\<not> whitespaceBeforeSrc (''src='' @ CHR 0x22 # p @ CHR 0x22 # '' '' @ ''alt='' @ CHR 0x22 # ea
            @ CHR 0x22 # '' '' @ ''style='' @ CHR 0x22 # sty @ CHR 0x22 # ''>'')"
proof -
  have q: "canonicalize CHR 0x22 \<notin> {83, 82, 67, 61}" by (simp add: canonicalize_def)
  let ?R5 = "'' '' @ ''style='' @ CHR 0x22 # sty @ CHR 0x22 # ''>''"
  let ?R3 = "'' '' @ ''alt='' @ CHR 0x22 # ea @ CHR 0x22 # ?R5"
  have "whitespaceBeforeSrc ((''style='' @ [CHR 0x22]) @ (sty @ [CHR 0x22, CHR ''>'']))
      = whitespaceBeforeSrc (sty @ [CHR 0x22, CHR ''>''])"
    by (intro wsb_no_ws) (simp add: isWhiteSpace_def)
  with assms(3) have r5: "\<not> whitespaceBeforeSrc (CHR 0x22 # ?R5)"
    by (simp add: startsWithSrc_def canonicalize_def isWhiteSpace_def)
  have "whitespaceBeforeSrc (ea @ CHR 0x22 # ?R5) = (whitespaceBeforeSrc ea \<or> whitespaceBeforeSrc (CHR 0x22 # ?R5))"
    using q by (rule wsb_break)
  with assms(2) r5 have e: "\<not> whitespaceBeforeSrc (ea @ CHR 0x22 # ?R5)" by simp
  have "whitespaceBeforeSrc ((''alt='' @ [CHR 0x22]) @ (ea @ CHR 0x22 # ?R5))
      = whitespaceBeforeSrc (ea @ CHR 0x22 # ?R5)"
    by (intro wsb_no_ws) (simp add: isWhiteSpace_def)
  with e have r3: "\<not> whitespaceBeforeSrc (CHR 0x22 # ?R3)"
    by (simp add: startsWithSrc_def canonicalize_def isWhiteSpace_def)
  have "whitespaceBeforeSrc ((''src='' @ [CHR 0x22]) @ p) = whitespaceBeforeSrc p"
    by (intro wsb_no_ws) (simp add: isWhiteSpace_def)
  with assms(1) have p: "\<not> whitespaceBeforeSrc ((''src='' @ [CHR 0x22]) @ p)" by simp
  have "whitespaceBeforeSrc (((''src='' @ [CHR 0x22]) @ p) @ CHR 0x22 # ?R3)
      = (whitespaceBeforeSrc ((''src='' @ [CHR 0x22]) @ p) \<or> whitespaceBeforeSrc (CHR 0x22 # ?R3))"
    using q by (rule wsb_break)
  with p r3 show ?thesis by simp
qed

lemma html_match_of_tag:
  assumes "p \<noteq> []" and "\<forall>x\<in>set p. notQuote x" and "\<forall>x\<in>set ea. notQuote x"
    and "sty \<noteq> []" and "\<forall>x\<in>set sty. notQuote x"
    and "\<not> whitespaceBeforeSrc p" and "\<not> whitespaceBeforeSrc ea"
    and "\<not> whitespaceBeforeSrc (sty @ [CHR 0x22, CHR ''>''])"
  shows "\<exists>m. re_match htmlImgRegex
            (''<img'' @ '' '' @ ''src='' @ CHR 0x22 # p @ CHR 0x22 # '' '' @ ''alt='' @ CHR 0x22 # ea
               @ CHR 0x22 # '' '' @ ''style='' @ CHR 0x22 # sty @ CHR 0x22 # ''>'') = Some m
          \<and> index m = 0
          \<and> matched m = ''<img'' @ '' '' @ ''src='' @ CHR 0x22 # p @ CHR 0x22 # '' '' @ ''alt='' @ CHR 0x22 # ea
               @ CHR 0x22 # '' '' @ ''style='' @ CHR 0x22 # sty @ CHR 0x22 # ''>''
          \<and> groups m 2 = Some p \<and> groups m 3 = None \<and> groups m 4 = Some ea
          \<and> groups m 6 = Some sty \<and> groups m 7 = None"
proof -
  let ?Q = "CHR 0x22"
  let ?R7 = "''>''"
  let ?R6 = "?Q # sty @ ?Q # ?R7"
  let ?R5 = "'' '' @ ''style='' @ ?R6"
  let ?R4 = "?Q # ea @ ?Q # ?R5"
  let ?R3 = "'' '' @ ''alt='' @ ?R4"
  let ?R2 = "?Q # p @ ?Q # ?R3"
  let ?R1 = "''src='' @ ?R2"
  let ?R0 = "'' '' @ ?R1"
  let ?T = "''<img'' @ ?R0"
  let ?e = "Map.empty :: captures"
  let ?i1 = "0 + length ''<img''"
  let ?i2 = "?i1 + length '' ''"
  let ?i3 = "?i2 + length ''src=''"
  let ?i4 = "?i3 + length (?Q # p @ [?Q])"
  let ?i5 = "?i4 + length ('' '' @ ''alt='') + length (?Q # ea @ [?Q])"
  let ?i6 = "?i5 + length ('' '' @ ''style='') + length (?Q # sty @ [?Q])"
  let ?c2 = "?e(2 \<mapsto> p)"
  let ?c4 = "?c2(4 \<mapsto> ea)"
  let ?c6 = "?c4(6 \<mapsto> sty)"
  have s1: "leads (lit_i ''<img'') (0, ?T, ?e) (?i1, ?R0, ?e)"
    by (rule leads_lit_i_same)
  have s2: "leads (Plus isWhiteSpace) (?i1, ?R0, ?e) (?i2, ?R1, ?e)"
    by (intro leads_Plus) (simp_all add: isWhiteSpace_def)
  have s4: "leads (lit_i ''src='') (?i2, ?R1, ?e) (?i3, ?R2, ?e)"
    by (rule leads_lit_i_same)
  have s5: "leads (Alt (Seq (Cls isQuote) (Seq (Cap 2 (Plus notQuote)) (Cls isQuote))) (Cap 3 (Plus notGtWs)))
              (?i3, ?R2, ?e) (?i4, ?R3, ?c2)"
    using assms(1,2) by (intro leads_Alt1 leads_quoted_plus)
  have "leads (Alt (Seq (Cls isQuote) (Seq (Cap 4 (Star notQuote)) (Cls isQuote))) (Cap 5 (Star notGtWs)))
              (?i4 + length ('' '' @ ''alt=''), ?R4, ?c2) (?i5, ?R5, ?c4)"
    using assms(3) by (intro leads_Alt1 leads_quoted_star)
  then have "leads (Seq (Plus isWhiteSpace) (Seq (LazyStar notGt) (Seq (Star isWhiteSpace)
                 (Seq (lit_i ''alt='')
                      (Alt (Seq (Cls isQuote) (Seq (Cap 4 (Star notQuote)) (Cls isQuote)))
                           (Cap 5 (Star notGtWs)))))))
              (?i4, ?R3, ?c2) (?i5, ?R5, ?c4)"
    by (intro leads_attribute) (simp_all add: isWhiteSpace_def)
  then have s6: "leads (Opt (Seq (Plus isWhiteSpace) (Seq (LazyStar notGt) (Seq (Star isWhiteSpace)
                 (Seq (lit_i ''alt='')
                      (Alt (Seq (Cls isQuote) (Seq (Cap 4 (Star notQuote)) (Cls isQuote)))
                           (Cap 5 (Star notGtWs))))))))
              (?i4, ?R3, ?c2) (?i5, ?R5, ?c4)"
    by (intro leads_Opt) simp_all
  have "leads (Alt (Seq (Cls isQuote) (Seq (Cap 6 (Plus notQuote)) (Cls isQuote))) (Cap 7 (Plus notGtWs)))
              (?i5 + length ('' '' @ ''style=''), ?R6, ?c4) (?i6, ?R7, ?c6)"
    using assms(4,5) by (intro leads_Alt1 leads_quoted_plus)
  then have "leads (Seq (Plus isWhiteSpace) (Seq (LazyStar notGt) (Seq (Star isWhiteSpace)
                 (Seq (lit_i ''style='')
                      (Alt (Seq (Cls isQuote) (Seq (Cap 6 (Plus notQuote)) (Cls isQuote)))
                           (Cap 7 (Plus notGtWs)))))))
              (?i5, ?R5, ?c4) (?i6, ?R7, ?c6)"
    by (intro leads_attribute) (simp_all add: isWhiteSpace_def)
  then have s7: "leads (Opt (Seq (Plus isWhiteSpace) (Seq (LazyStar notGt) (Seq (Star isWhiteSpace)
                 (Seq (lit_i ''style='')
                      (Alt (Seq (Cls isQuote) (Seq (Cap 6 (Plus notQuote)) (Cls isQuote)))
                           (Cap 7 (Plus notGtWs))))))))
              (?i5, ?R5, ?c4) (?i6, ?R7, ?c6)"
    by (intro leads_Opt) simp_all
  have s8: "leads (LazyStar notGt) (?i6, ?R7, ?c6) (?i6, ?R7, ?c6)"
    by (rule leads_LazyStar)
  have s9: "leads (Cls (\<lambda>x. x = CHR ''>'')) (?i6, ?R7, ?c6) (Suc ?i6, [], ?c6)"
    by (intro leads_Cls) simp
  note k = leads_Seq [OF s4 leads_Seq [OF s5 leads_Seq [OF s6 leads_Seq [OF s7 leads_Seq [OF s8 s9]]]]]
  have dead: "\<not> whitespaceBeforeSrc ?R1"
    using tag_has_no_early_src [OF assms(6,7,8)] .
  note body = leads_Seq [OF s1 leads_Seq [OF s2 leads_Seq_Opt_dead [OF prefix_group_dead [OF dead] k]]]
  have len: "Suc ?i6 - 0 = length ?T" by simp
  from re_search_first [OF leads_Cap [OF body, of 1]]
  have "re_match htmlImgRegex ?T
          = Some \<lparr>index = 0, matched = take (Suc ?i6 - 0) ?T, groups = ?c6(1 \<mapsto> take (Suc ?i6 - 0) ?T)\<rparr>"
    unfolding htmlImgRegex_unfold re_match_def by simp
  then have "re_match htmlImgRegex ?T = Some \<lparr>index = 0, matched = ?T, groups = ?c6(1 \<mapsto> ?T)\<rparr>"
    unfolding len by simp
  then show ?thesis by simp
qed

text \<open>
  Claim C2 fails as it is stated: the path is put into the tag as it is, so a path with a
  double quote ends the \<open>src\<close> attribute early and the tag reads back with a shorter
  path.
\<close>

theorem tag_with_quote_in_path_reads_back_wrong:
  "map_option path (parseHtml (imgTag (''a'' @ [CHR 0x22] @ ''b.png'') (Some ''x'') None None 100))
     = Some ''a''
   \<and> ''a'' \<noteq> ''a'' @ [CHR 0x22] @ ''b.png''"
  by code_simp

text \<open>
  Claim C2, amended. Let the path be non-empty, trimmed and free of quote characters, let
  neither the path nor the alt text have a whitespace character followed by \<open>src=\<close> (in
  any case of the letters), let the width and the height, where given, be positive safe
  integers (below \<open>2^53\<close>), and the zoom a safe integer that is not negative. Then
  \<open>parseHtml\<close> succeeds on the rendered tag and returns this path, width, height and zoom; the span of the
  record is the whole tag. The same record is the result of \<open>parseImageSyntaxFromLine\<close>
  when the tag has no match of the Markdown and the Wikilink pattern.
\<close>

theorem html_tag_reads_back:
  assumes "p \<noteq> []" and "list_all notQuote p" and "trim p = p" and "\<not> whitespaceBeforeSrc p"
    and "case a of None \<Rightarrow> True | Some t \<Rightarrow> \<not> whitespaceBeforeSrc t"
    and "case w of None \<Rightarrow> True | Some n \<Rightarrow> 0 < n \<and> safeInteger n"
    and "case h of None \<Rightarrow> True | Some n \<Rightarrow> 0 < n \<and> safeInteger n"
    and "0 \<le> z" and "safeInteger (nat z)"
  shows "\<exists>r. parseHtml (imgTag p a w h z) = Some r
      \<and> path r = p \<and> specifiedWidth r = w \<and> specifiedHeight r = h
      \<and> map_option int (currentZoomPercent r) = Some z
      \<and> isHtml r \<and> startIndexInLine r = 0 \<and> originalMatch r = imgTag p a w h z
      \<and> (parseMarkdown (imgTag p a w h z) = None \<and> parseWikilink (imgTag p a w h z) = None
           \<longrightarrow> parseImageSyntaxFromLine (imgTag p a w h z) = Some r)"
proof -
  let ?ea = "safeAltText a"
  let ?sty = "styleString w h z"
  let ?T = "''<img'' @ '' '' @ ''src='' @ CHR 0x22 # p @ CHR 0x22 # '' '' @ ''alt='' @ CHR 0x22 # ?ea
               @ CHR 0x22 # '' '' @ ''style='' @ CHR 0x22 # ?sty @ CHR 0x22 # ''>''"
  from style_shape [OF assms(8), of w h] have sty:
    "?sty \<noteq> []" "\<forall>x\<in>set ?sty. notQuote x" "trim ?sty = ?sty"
    "\<not> whitespaceBeforeSrc (?sty @ [CHR 0x22, CHR ''>''])" by simp_all
  from safeAltText_shape [OF assms(5)] have ea:
    "\<forall>x\<in>set ?ea. notQuote x" "\<not> whitespaceBeforeSrc ?ea" by simp_all
  have pq: "\<forall>x\<in>set p. notQuote x" using assms(2) by (simp add: list_all_iff)
  have tag: "imgTag p a w h z = ?T" by (simp add: imgTag_def sty(3))
  from html_match_of_tag [OF assms(1) pq ea(1) sty(1,2) assms(4) ea(2) sty(4)] obtain m where
    m: "re_match htmlImgRegex ?T = Some m" "index m = 0" "matched m = ?T"
       "groups m 2 = Some p" "groups m 3 = None" "groups m 4 = Some ?ea"
       "groups m 6 = Some ?sty" "groups m 7 = None"
    by (elim exE conjE)
  have w0: "w \<noteq> Some 0" using assms(6) by auto
  have h0: "h \<noteq> Some 0" using assms(7) by auto
  from style_reads_back [OF w0 h0 assms(8)] have rb:
    "capturedInt widthRegex ?sty = w" "capturedInt heightRegex ?sty = h"
    "capturedInt zoomRegex ?sty = Some (nat z)" by simp_all
  have "\<exists>r. parseHtml ?T = Some r
      \<and> path r = p \<and> specifiedWidth r = w \<and> specifiedHeight r = h
      \<and> currentZoomPercent r = Some (nat z)
      \<and> isHtml r \<and> startIndexInLine r = 0 \<and> originalMatch r = ?T"
    unfolding parseHtml_def m(1)
    using m(2-) assms(1,3) sty(1) rb by (simp add: Let_def orElse_def truthy_def)
  then obtain r where r: "parseHtml ?T = Some r" "path r = p" "specifiedWidth r = w"
      "specifiedHeight r = h" "currentZoomPercent r = Some (nat z)" "isHtml r"
      "startIndexInLine r = 0" "originalMatch r = ?T"
    by (elim exE conjE)
  have "map_option int (currentZoomPercent r) = Some z" using r(5) assms(8) by simp
  moreover have "parseMarkdown ?T = None \<and> parseWikilink ?T = None
      \<longrightarrow> parseImageSyntaxFromLine ?T = Some r"
    using r(1) by (simp add: parseImageSyntaxFromLine_def)
  ultimately show ?thesis unfolding tag using r by (intro exI [of _ r] conjI)
qed

lemma reads_back_example_inputs:
  "list_all notQuote ''pic.jpg''" "trim ''pic.jpg'' = ''pic.jpg''" "\<not> whitespaceBeforeSrc ''pic.jpg''"
  "\<not> whitespaceBeforeSrc ''a cap''"
  by code_simp+

theorem html_tag_reads_back_witness:
  "''pic.jpg'' \<noteq> [] \<and> list_all notQuote ''pic.jpg'' \<and> trim ''pic.jpg'' = ''pic.jpg''
   \<and> \<not> whitespaceBeforeSrc ''pic.jpg'' \<and> \<not> whitespaceBeforeSrc ''a cap''
   \<and> safeInteger 200 \<and> safeInteger 100 \<and> safeInteger 150
   \<and> (\<exists>r. parseHtml (imgTag ''pic.jpg'' (Some ''a cap'') (Some 200) (Some 100) 150) = Some r
        \<and> path r = ''pic.jpg'' \<and> specifiedWidth r = Some 200 \<and> specifiedHeight r = Some 100
        \<and> currentZoomPercent r = Some 150)"
proof -
  have s: "safeInteger 200" "safeInteger 100" "safeInteger 150"
    by (simp_all add: safeInteger_def)
  have a: "case Some ''a cap'' of None \<Rightarrow> True | Some t \<Rightarrow> \<not> whitespaceBeforeSrc t"
    using reads_back_example_inputs(4) by simp
  have n: "''pic.jpg'' \<noteq> []"
    "case Some (200::nat) of None \<Rightarrow> True | Some n \<Rightarrow> 0 < n \<and> safeInteger n"
    "case Some (100::nat) of None \<Rightarrow> True | Some n \<Rightarrow> 0 < n \<and> safeInteger n"
    "(0::int) \<le> 150" "safeInteger (nat 150)"
    using s by simp_all
  from html_tag_reads_back [OF n(1) reads_back_example_inputs(1,2,3) a n(2,3,4,5)]
  obtain r where "parseHtml (imgTag ''pic.jpg'' (Some ''a cap'') (Some 200) (Some 100) 150) = Some r"
    "path r = ''pic.jpg''" "specifiedWidth r = Some 200" "specifiedHeight r = Some 100"
    "map_option int (currentZoomPercent r) = Some 150"
    by (elim exE conjE)
  moreover from this(5) have "currentZoomPercent r = Some 150" by (cases "currentZoomPercent r") auto
  ultimately show ?thesis using reads_back_example_inputs s by (intro conjI exI [of _ r]) simp_all
qed

end
